theory Spec2Isabelle
  imports Main "HOL-Library.Word" "HOL-Library.Signed_Division"
begin

unbundle bit_operations_syntax

section \<open>Machine types\<close>

type_synonym u8 = "8 word"
type_synonym u16 = "16 word"
type_synonym u32 = "32 word"
type_synonym u64 = "64 word"

text \<open>
  \<^verbatim>\<open>calloc\<close> may return \<^verbatim>\<open>NULL\<close> at any call.  The outcomes of the calls still to come
  are a list of booleans, consumed one per call; an exhausted list means no memory.
  A successful \<^verbatim>\<open>calloc\<close> yields an all-zero object.
\<close>

type_synonym heap = "bool list"

definition calloc :: "heap \<Rightarrow> bool \<times> heap" where
  "calloc h = (case h of [] \<Rightarrow> (False, []) | ok # h' \<Rightarrow> (ok, h'))"

section \<open>The ARP tracker (\<^verbatim>\<open>sbin/flytrap/arp.c\<close>)\<close>

subsection \<open>Data\<close>

text \<open>
  \<^verbatim>\<open>ether_addr\<close> is six octets \<^verbatim>\<open>o[0..5]\<close>.  \<^verbatim>\<open>ip4_addr\<close> is a union of four octets
  \<^verbatim>\<open>o[0..3]\<close> in network order and the 32-bit word \<^verbatim>\<open>q\<close> over the same bytes, so
  \<^verbatim>\<open>be32toh(ip4->q)\<close> is the big-endian value of the octets.
\<close>

datatype ether_addr = Ether u8 u8 u8 u8 u8 u8

datatype ip4_addr = Ip4 (o0: u8) (o1: u8) (o2: u8) (o3: u8)

definition ether_zero :: ether_addr where
  "ether_zero = Ether 0 0 0 0 0 0"

definition be32toh_q :: "ip4_addr \<Rightarrow> u32" where
  "be32toh_q ip =
     push_bit 24 (ucast (o0 ip)) OR push_bit 16 (ucast (o1 ip)) OR
     push_bit 8 (ucast (o2 ip)) OR ucast (o3 ip)"

text \<open>
  \<^verbatim>\<open>struct arpn\<close>.  The C struct overlays the child array \<^verbatim>\<open>sub[16]\<close> and the pair
  \<^verbatim>\<open>ether\<close>, \<^verbatim>\<open>nreq\<close> in a union.  The code reads and writes \<^verbatim>\<open>ether\<close> and \<^verbatim>\<open>nreq\<close> only in the
  node \<^verbatim>\<open>arp_insert\<close> returns or \<^verbatim>\<open>arp_lookup\<close> reaches after eight steps, and \<^verbatim>\<open>sub\<close> only
  in the nodes above it, so the two members are kept as separate fields; \<open>arp_wf\<close>
  below is the invariant that makes these disjoint (depth-8 nodes have \<^verbatim>\<open>plen == 32\<close> and
  an untouched child array).
\<close>

record arpn_fields =
  an_addr :: u32
  an_plen :: u8
  an_claimed :: bool
  an_reserved :: bool
  an_first :: u64
  an_last :: u64
  an_ether :: ether_addr
  an_nreq :: u32

datatype arpn = Arpn (hdr: arpn_fields) (an_sub: "arpn option list")

text \<open>A zeroed \<^verbatim>\<open>struct arpn\<close>: what \<^verbatim>\<open>calloc\<close> returns, and the static \<^verbatim>\<open>arp_root\<close>.\<close>

definition arpn_zero :: arpn where
  "arpn_zero = Arpn \<lparr>an_addr = 0, an_plen = 0, an_claimed = False, an_reserved = False,
     an_first = 0, an_last = 0, an_ether = ether_zero, an_nreq = 0\<rparr> (replicate 16 None)"

definition upd_fields :: "(arpn_fields \<Rightarrow> arpn_fields) \<Rightarrow> arpn \<Rightarrow> arpn" where
  "upd_fields f n = Arpn (f (hdr n)) (an_sub n)"

definition set_sub :: "nat \<Rightarrow> arpn \<Rightarrow> arpn \<Rightarrow> arpn" where
  "set_sub i sn n = Arpn (hdr n) ((an_sub n)[i := Some sn])"

text \<open>
  A pointer to a node of the tree is the list of child indices leading to it from the
  root.  \<open>deref\<close> reads through such a pointer, \<open>modify\<close> writes through it.
\<close>

fun deref :: "arpn \<Rightarrow> nat list \<Rightarrow> arpn option" where
  "deref n [] = Some n"
| "deref n (i # p) =
     (if i < length (an_sub n)
      then (case an_sub n ! i of None \<Rightarrow> None | Some sn \<Rightarrow> deref sn p)
      else None)"

fun modify :: "nat list \<Rightarrow> (arpn_fields \<Rightarrow> arpn_fields) \<Rightarrow> arpn \<Rightarrow> arpn" where
  "modify [] f n = upd_fields f n"
| "modify (i # p) f n =
     (if i < length (an_sub n)
      then (case an_sub n ! i of None \<Rightarrow> n | Some sn \<Rightarrow> set_sub i (modify p f sn) n)
      else n)"

subsection \<open>\<^verbatim>\<open>arp_insert\<close>\<close>

text \<open>
  The result of \<^verbatim>\<open>arp_insert\<close>: the node for the address, \<^verbatim>\<open>NULL\<close> when \<^verbatim>\<open>calloc\<close> failed,
  the failure of \<^verbatim>\<open>ft_assert(n->addr == addr)\<close>, or \<open>Fault\<close> where C leaves the behaviour
  undefined (a shift count outside 0..31, an index outside \<^verbatim>\<open>sub[16]\<close>).
\<close>

datatype insert_result = Fault | Assert_failed | Null | Node "nat list"

fun below :: "nat \<Rightarrow> insert_result \<Rightarrow> insert_result" where
  "below i (Node p) = Node (i # p)"
| "below i r = r"

text \<open>
  The caller's \<^verbatim>\<open>n == NULL\<close> stands for \<^verbatim>\<open>&arp_root\<close>; in the model the caller passes the
  root.  A node created on the way stays linked into its parent when a later \<^verbatim>\<open>calloc\<close>
  fails, so the tree is returned in every case.
\<close>

function arp_insert :: "arpn \<Rightarrow> u32 \<Rightarrow> u64 \<Rightarrow> heap \<Rightarrow> insert_result \<times> arpn \<times> heap" where
  "arp_insert n addr when h =
     (if an_plen (hdr n) = 32 then
        (if an_addr (hdr n) = addr then (Node [], n, h) else (Assert_failed, n, h))
      else
        let splen = an_plen (hdr n) + 4 in
        if unat splen = 0 \<or> 32 < unat splen then (Fault, n, h)
        else
          let sub = unat (drop_bit (32 - unat splen) addr mod 16) in
          if \<not> sub < length (an_sub n) then (Fault, n, h)
          else
            (case an_sub n ! sub of
               Some sn \<Rightarrow>
                 (case arp_insert sn addr when h of
                    (rn, sn', h') \<Rightarrow> (below sub rn, set_sub sub sn' n, h'))
             | None \<Rightarrow>
                 (case calloc h of
                    (False, h') \<Rightarrow> (Null, n, h')
                  | (True, h') \<Rightarrow>
                      let sn = upd_fields (\<lambda>f. f\<lparr>
                                 an_addr := an_addr (hdr n) OR
                                   push_bit (32 - unat splen) (word_of_nat sub),
                                 an_plen := splen, an_first := when, an_last := when\<rparr>)
                               arpn_zero
                      in (case arp_insert sn addr when h' of
                            (rn, sn', h'') \<Rightarrow> (below sub rn, set_sub sub sn' n, h'')))))"
  by pat_completeness auto
termination
proof (relation "measures [\<lambda>(n, addr, when, h). length h, \<lambda>(n, addr, when, h). size n]",
    goal_cases)
  case 1
  show ?case by simp
next
  case (2 n addr w h splen sub ok h' sn)
  then have "length h' < length h"
    by (auto simp: calloc_def split: list.splits)
  then show ?case by simp
next
  case (3 n addr w h splen sub sn)
  then have "Some sn \<in> set (an_sub n)"
    by (metis nth_mem)
  then have "size sn < size n"
    by (cases n) (auto dest!: size_list_estimation' [where f = "size_option size" and y = "size sn"]
        simp: less_Suc_eq_le)
  then show ?case by simp
qed

declare arp_insert.simps [simp del]

subsection \<open>The tracker state and its operations\<close>

text \<open>
  \<^verbatim>\<open>arp_pkt\<close> (declared in \<^verbatim>\<open>ft/arp.h\<close>).  The 16-bit fields hold the value
  \<^verbatim>\<open>be16toh\<close> reads, so \<^verbatim>\<open>be16toh\<close> and \<^verbatim>\<open>htobe16\<close> do not appear in the model.
\<close>

record arp_pkt =
  htype :: u16
  ptype :: u16
  hlen :: u8
  plen :: u8
  oper :: u16
  sha :: ether_addr
  spa :: ip4_addr
  tha :: ether_addr
  tpa :: ip4_addr

text \<open>
  Modelled from the spec: \<^verbatim>\<open>ft/arp.h\<close> is not among the sources.  The spec speaks of the
  fixed resolution-packet header with Ethernet/IPv4 hardware and protocol types, a
  request (who-has) and a reply (is-at) operation; the numbers are those of an
  Ethernet/IPv4 ARP packet (28 octets).
\<close>

definition sizeof_arp_pkt :: nat where "sizeof_arp_pkt = 28"
definition arp_type_ether :: u16 where "arp_type_ether = 1"
definition arp_type_ip4 :: u16 where "arp_type_ip4 = 0x0800"
definition arp_oper_who_has :: u16 where "arp_oper_who_has = 1"
definition arp_oper_is_at :: u16 where "arp_oper_is_at = 2"

text \<open>
  What the code reads of \<^verbatim>\<open>ether_flow *fl\<close>: the capture time \<^verbatim>\<open>fl->p->ts\<close> (two signed
  integers) and the interface's own address \<^verbatim>\<open>fl->p->i->ether\<close>.
\<close>

record ether_flow =
  tv_sec :: int
  tv_usec :: int
  iface_ether :: ether_addr

text \<open>
  The global state: the tree under \<^verbatim>\<open>arp_root\<close>, the outcomes of the \<^verbatim>\<open>calloc\<close> calls to
  come, and the packets handed to \<^verbatim>\<open>ethernet_reply\<close> so far (oldest first).
\<close>

record arp_state =
  arp_root :: arpn
  heap :: heap
  sent :: "arp_pkt list"

text \<open>
  How a call ends: it returns an \<^verbatim>\<open>int\<close>, \<^verbatim>\<open>ft_assert\<close> stops the process, or the behaviour
  is undefined in C.
  Modelled from the spec: \<^verbatim>\<open>ft/assert.h\<close> is not among the sources; the spec says a
  failed check at a /32 node aborts.
\<close>

datatype outcome = Undefined | Aborted | Return int

definition arp_register :: "ip4_addr \<Rightarrow> ether_addr \<Rightarrow> u64 \<Rightarrow> arp_state \<Rightarrow> outcome \<times> arp_state" where
  "arp_register ip4 ether when st =
     (case arp_insert (arp_root st) (be32toh_q ip4) when (heap st) of
        (Fault, t, h) \<Rightarrow> (Undefined, st\<lparr>arp_root := t, heap := h\<rparr>)
      | (Assert_failed, t, h) \<Rightarrow> (Aborted, st\<lparr>arp_root := t, heap := h\<rparr>)
      | (Null, t, h) \<Rightarrow> (Return (- 1), st\<lparr>arp_root := t, heap := h\<rparr>)
      | (Node an, t, h) \<Rightarrow>
          (Return 0, st\<lparr>arp_root :=
             modify an (\<lambda>f. (if an_ether f \<noteq> ether then f\<lparr>an_ether := ether\<rparr> else f)
                               \<lparr>an_nreq := 0\<rparr>) t,
             heap := h\<rparr>))"

text \<open>\<^verbatim>\<open>arp_lookup\<close>: \<open>None\<close> is the return value -1, \<open>Some e\<close> is 0 with \<^verbatim>\<open>*ether = e\<close>.\<close>

definition sub_at :: "nat \<Rightarrow> arpn \<Rightarrow> arpn option" where
  "sub_at i an = an_sub an ! i"

definition arp_lookup :: "ip4_addr \<Rightarrow> arp_state \<Rightarrow> ether_addr option" where
  "arp_lookup ip4 st =
     (case
        Option.bind (Option.bind (Option.bind (Option.bind (Option.bind (Option.bind
          (Option.bind (sub_at (unat (o0 ip4 div 16)) (arp_root st))
             (sub_at (unat (o0 ip4 mod 16))))
             (sub_at (unat (o1 ip4 div 16))))
             (sub_at (unat (o1 ip4 mod 16))))
             (sub_at (unat (o2 ip4 div 16))))
             (sub_at (unat (o2 ip4 mod 16))))
             (sub_at (unat (o3 ip4 div 16))))
             (sub_at (unat (o3 ip4 mod 16)))
      of None \<Rightarrow> None
       | Some an \<Rightarrow> Some (an_ether (hdr an)))"

text \<open>
  \<^verbatim>\<open>arp_reply\<close> builds the is-at answer and hands it to \<^verbatim>\<open>ethernet_reply\<close>, which is not
  among the sources: its return value is the parameter \<open>ethernet_reply\<close>, and the packet
  it is given is appended to \<open>sent\<close>.
\<close>

definition arp_reply ::
  "(ether_flow \<Rightarrow> arp_pkt \<Rightarrow> int) \<Rightarrow> ether_flow \<Rightarrow> arp_pkt \<Rightarrow> arp_state \<Rightarrow> int \<times> arp_state" where
  "arp_reply ethernet_reply fl iap st =
     (let ap = \<lparr>htype = arp_type_ether, ptype = arp_type_ip4, hlen = 6, plen = 4,
                oper = arp_oper_is_at, sha = iface_ether fl, spa = tpa iap,
                tha = sha iap, tpa = spa iap\<rparr>
      in (if ethernet_reply fl ap \<noteq> 0 then - 1 else 0, st\<lparr>sent := sent st @ [ap]\<rparr>))"

definition arp_reserve :: "ip4_addr \<Rightarrow> arp_state \<Rightarrow> outcome \<times> arp_state" where
  "arp_reserve addr st =
     (case arp_insert (arp_root st) (be32toh_q addr) 0 (heap st) of
        (Fault, t, h) \<Rightarrow> (Undefined, st\<lparr>arp_root := t, heap := h\<rparr>)
      | (Assert_failed, t, h) \<Rightarrow> (Aborted, st\<lparr>arp_root := t, heap := h\<rparr>)
      | (Null, t, h) \<Rightarrow> (Return (- 1), st\<lparr>arp_root := t, heap := h\<rparr>)
      | (Node an, t, h) \<Rightarrow>
          (Return 0, st\<lparr>arp_root := modify an (\<lambda>f. f\<lparr>an_reserved := True\<rparr>) t, heap := h\<rparr>))"

subsection \<open>\<^verbatim>\<open>packet_analyze_arp\<close>\<close>

text \<open>
  The chain of tests on the target's node \<^verbatim>\<open>an\<close> in the who-has case (reserved, claimed,
  new or stale, claim, count), with the literal thresholds of the source: a gap of
  30000 ms, 3 requests, a window of 3000 ms.  \<open>an\<close> is the pointer \<^verbatim>\<open>arp_insert\<close> returned.
  The subtractions are on \<^verbatim>\<open>uint64_t\<close> and wrap.
\<close>

definition who_has_target ::
  "(ether_flow \<Rightarrow> arp_pkt \<Rightarrow> int) \<Rightarrow> ether_flow \<Rightarrow> arp_pkt \<Rightarrow> u64 \<Rightarrow> nat list \<Rightarrow>
   arp_state \<Rightarrow> outcome \<times> arp_state" where
  "who_has_target ethernet_reply fl ap when an st =
     (case deref (arp_root st) an of
        None \<Rightarrow> (Undefined, st)
      | Some n \<Rightarrow>
          if an_reserved (hdr n) then
            (Return 0, st\<lparr>arp_root := modify an (\<lambda>f. f\<lparr>an_nreq := 0\<rparr>) (arp_root st)\<rparr>)
          else if an_claimed (hdr n) then
            (case arp_reply ethernet_reply fl ap
                    (st\<lparr>arp_root :=
                       modify an (\<lambda>f. f\<lparr>an_nreq := 0, an_last := when\<rparr>) (arp_root st)\<rparr>) of
               (r, st') \<Rightarrow> if r \<noteq> 0 then (Return (- 1), st') else (Return 0, st'))
          else if an_nreq (hdr n) = 0 \<or> when - an_last (hdr n) \<ge> 30000 then
            (Return 0, st\<lparr>arp_root :=
               modify an (\<lambda>f. f\<lparr>an_nreq := 1, an_first := when, an_last := when\<rparr>)
                 (arp_root st)\<rparr>)
          else if an_nreq (hdr n) \<ge> 3 \<and> when - an_first (hdr n) \<ge> 3000 then
            (case arp_reply ethernet_reply fl ap
                    (st\<lparr>arp_root :=
                       modify an (\<lambda>f. f\<lparr>an_claimed := True, an_nreq := 0, an_last := when\<rparr>)
                         (arp_root st)\<rparr>) of
               (r, st') \<Rightarrow> if r \<noteq> 0 then (Return (- 1), st') else (Return 0, st'))
          else
            (Return 0, st\<lparr>arp_root :=
               modify an (\<lambda>f. f\<lparr>an_nreq := an_nreq f + 1, an_last := when\<rparr>) (arp_root st)\<rparr>))"

text \<open>
  \<open>data\<close> is the buffer seen as an \<^verbatim>\<open>arp_pkt\<close>, \<open>len\<close> its length.  \<^verbatim>\<open>dst_set\<close> and
  \<^verbatim>\<open>ip4s_lookup\<close> are not among the sources: \<open>dst_set\<close> is \<open>None\<close> for the null pointer and
  otherwise the membership test of the set.  Logging has no effect on the state.  The
  return value of the sender's \<^verbatim>\<open>arp_register\<close> is ignored, as in the source.
\<close>

definition packet_analyze_arp ::
  "(u32 \<Rightarrow> bool) option \<Rightarrow> (ether_flow \<Rightarrow> arp_pkt \<Rightarrow> int) \<Rightarrow> ether_flow \<Rightarrow> arp_pkt \<Rightarrow> nat \<Rightarrow>
   arp_state \<Rightarrow> outcome \<times> arp_state" where
  "packet_analyze_arp dst_set ethernet_reply fl ap len st =
     (if len < sizeof_arp_pkt then (Return (- 1), st)
      else if htype ap \<noteq> arp_type_ether \<or> hlen ap \<noteq> 6 \<or>
              ptype ap \<noteq> arp_type_ip4 \<or> plen ap \<noteq> 4 then (Return 0, st)
      else if oper ap \<noteq> arp_oper_who_has \<and> oper ap \<noteq> arp_oper_is_at then (Return 0, st)
      else
        let when = (word_of_int (tv_sec fl * 1000 + tv_usec fl sdiv 1000) :: u64) in
        if oper ap = arp_oper_who_has then
          (if (case dst_set of None \<Rightarrow> False | Some s \<Rightarrow> \<not> s (be32toh_q (tpa ap)))
           then (Return 0, st)
           else
             (case arp_register (spa ap) (sha ap) when st of
                (Undefined, st1) \<Rightarrow> (Undefined, st1)
              | (Aborted, st1) \<Rightarrow> (Aborted, st1)
              | (Return r, st1) \<Rightarrow>
                  (case arp_insert (arp_root st1) (be32toh_q (tpa ap)) when (heap st1) of
                     (Fault, t, h) \<Rightarrow> (Undefined, st1\<lparr>arp_root := t, heap := h\<rparr>)
                   | (Assert_failed, t, h) \<Rightarrow> (Aborted, st1\<lparr>arp_root := t, heap := h\<rparr>)
                   | (Null, t, h) \<Rightarrow> (Return (- 1), st1\<lparr>arp_root := t, heap := h\<rparr>)
                   | (Node an, t, h) \<Rightarrow>
                       who_has_target ethernet_reply fl ap when an
                         (st1\<lparr>arp_root := t, heap := h\<rparr>))))
        else
          (case arp_register (spa ap) (sha ap) when st of
             (Undefined, st1) \<Rightarrow> (Undefined, st1)
           | (Aborted, st1) \<Rightarrow> (Aborted, st1)
           | (Return r, st1) \<Rightarrow>
               (case arp_register (tpa ap) (tha ap) when st1 of
                  (Undefined, st2) \<Rightarrow> (Undefined, st2)
                | (Aborted, st2) \<Rightarrow> (Aborted, st2)
                | (Return r', st2) \<Rightarrow> (Return 0, st2))))"

subsection \<open>Tree paths, well-formed trees, reachable states\<close>

text \<open>
  \<open>nibble r addr\<close> is the index \<^verbatim>\<open>arp_insert\<close> computes at the node \<open>r + 1\<close> levels above the
  /32 nodes, \<open>path r addr\<close> the indices from such a node down.
\<close>

definition nibble :: "nat \<Rightarrow> u32 \<Rightarrow> nat" where
  "nibble r addr = unat (drop_bit (4 * r) addr mod 16)"

fun path :: "nat \<Rightarrow> u32 \<Rightarrow> nat list" where
  "path 0 addr = []"
| "path (Suc r) addr = nibble r addr # path r addr"

fun arp_wf :: "nat \<Rightarrow> arpn \<Rightarrow> bool" where
  "arp_wf 0 n = (an_plen (hdr n) = 32 \<and> an_sub n = replicate 16 None)"
| "arp_wf (Suc r) n =
     (unat (an_plen (hdr n)) + 4 * Suc r = 32 \<and> length (an_sub n) = 16 \<and>
      (\<forall>i<16. case an_sub n ! i of None \<Rightarrow> True
         | Some c \<Rightarrow> an_addr (hdr c) = an_addr (hdr n) OR push_bit (4 * r) (word_of_nat i) \<and>
                     arp_wf r c))"

definition fresh :: "arpn \<Rightarrow> nat \<Rightarrow> nat \<Rightarrow> u64 \<Rightarrow> arpn" where
  "fresh n r i w = upd_fields (\<lambda>f. f\<lparr>an_addr := an_addr (hdr n) OR push_bit (4 * r) (word_of_nat i),
       an_plen := an_plen (hdr n) + 4, an_first := w, an_last := w\<rparr>) arpn_zero"

definition leaf0 :: "u32 \<Rightarrow> u64 \<Rightarrow> arpn" where
  "leaf0 addr w = Arpn \<lparr>an_addr = addr, an_plen = 32, an_claimed = False, an_reserved = False,
     an_first = w, an_last = w, an_ether = ether_zero, an_nreq = 0\<rparr> (replicate 16 None)"

definition insert_post :: "nat \<Rightarrow> arpn \<Rightarrow> u32 \<Rightarrow> u64 \<Rightarrow> heap \<Rightarrow> insert_result \<times> arpn \<times> heap \<Rightarrow> bool" where
  "insert_post r n addr w h out =
     (case out of (res, n', h') \<Rightarrow>
        arp_wf r n' \<and> hdr n' = hdr n \<and>
        (\<forall>q. length q = r \<longrightarrow> q \<noteq> path r addr \<longrightarrow> deref n' q = deref n q) \<and>
        (case deref n (path r addr) of
           Some m \<Rightarrow> res = Node (path r addr) \<and> n' = n \<and> h' = h \<and> an_addr (hdr m) = addr
         | None \<Rightarrow> res = Null \<and> deref n' (path r addr) = None \<or>
                   res = Node (path r addr) \<and> deref n' (path r addr) = Some (leaf0 addr w)))"

definition ip_path :: "ip4_addr \<Rightarrow> nat list" where
  "ip_path ip4 =
     [unat (o0 ip4 div 16), unat (o0 ip4 mod 16), unat (o1 ip4 div 16), unat (o1 ip4 mod 16),
      unat (o2 ip4 div 16), unat (o2 ip4 mod 16), unat (o3 ip4 div 16), unat (o3 ip4 mod 16)]"

definition tree_inv :: "arpn \<Rightarrow> bool" where
  "tree_inv t = (arp_wf 8 t \<and> an_addr (hdr t) = 0)"

definition node_of :: "arpn \<Rightarrow> ip4_addr \<Rightarrow> arpn_fields option" where
  "node_of t ip4 = map_option hdr (deref t (ip_path ip4))"

definition arp_node :: "ip4_addr \<Rightarrow> arp_state \<Rightarrow> arpn_fields option" where
  "arp_node ip4 st = node_of (arp_root st) ip4"

definition arp_inv :: "arp_state \<Rightarrow> bool" where
  "arp_inv st = tree_inv (arp_root st)"

definition record0 :: "ip4_addr \<Rightarrow> u64 \<Rightarrow> arpn_fields" where
  "record0 ip4 w = \<lparr>an_addr = be32toh_q ip4, an_plen = 32, an_claimed = False,
     an_reserved = False, an_first = w, an_last = w, an_ether = ether_zero, an_nreq = 0\<rparr>"

definition before :: "arpn \<Rightarrow> ip4_addr \<Rightarrow> u64 \<Rightarrow> arpn_fields" where
  "before t ip4 w = (case node_of t ip4 of None \<Rightarrow> record0 ip4 w | Some x \<Rightarrow> x)"

definition is_at_reply :: "ether_flow \<Rightarrow> arp_pkt \<Rightarrow> arp_pkt" where
  "is_at_reply fl iap = \<lparr>htype = arp_type_ether, ptype = arp_type_ip4, hlen = 6, plen = 4,
     oper = arp_oper_is_at, sha = iface_ether fl, spa = tpa iap, tha = sha iap, tpa = spa iap\<rparr>"

definition capture_ms :: "ether_flow \<Rightarrow> u64" where
  "capture_ms fl = word_of_int (tv_sec fl * 1000 + tv_usec fl sdiv 1000)"

definition valid_header :: "arp_pkt \<Rightarrow> nat \<Rightarrow> bool" where
  "valid_header ap len =
     (sizeof_arp_pkt \<le> len \<and> htype ap = arp_type_ether \<and> hlen ap = 6 \<and>
      ptype ap = arp_type_ip4 \<and> plen ap = 4)"

definition in_scope :: "(u32 \<Rightarrow> bool) option \<Rightarrow> ip4_addr \<Rightarrow> bool" where
  "in_scope dst_set ip4 = (case dst_set of None \<Rightarrow> True | Some s \<Rightarrow> s (be32toh_q ip4))"

text \<open>
  A well-formed who-has request for the target \<open>ip4\<close> that passes the scope test and does
  not come from the target itself.
\<close>

definition who_has_for :: "ip4_addr \<Rightarrow> (u32 \<Rightarrow> bool) option \<Rightarrow> arp_pkt \<Rightarrow> nat \<Rightarrow> bool" where
  "who_has_for ip4 dst_set ap len =
     (valid_header ap len \<and> oper ap = arp_oper_who_has \<and> in_scope dst_set ip4 \<and>
      tpa ap = ip4 \<and> spa ap \<noteq> ip4)"

text \<open>The same without the condition on the sender.\<close>

definition who_has_request :: "ip4_addr \<Rightarrow> (u32 \<Rightarrow> bool) option \<Rightarrow> arp_pkt \<Rightarrow> nat \<Rightarrow> bool" where
  "who_has_request ip4 dst_set ap len =
     (valid_header ap len \<and> oper ap = arp_oper_who_has \<and> in_scope dst_set ip4 \<and> tpa ap = ip4)"

text \<open>
  The calls the rest of the program can make, each with the outcomes of the \<^verbatim>\<open>calloc\<close>
  calls it will see.  \<open>calls\<close> runs them in order from a state and stops where a call
  does not return.
\<close>

definition arp_init :: arp_state where
  "arp_init = \<lparr>arp_root = arpn_zero, heap = [], sent = []\<rparr>"

datatype arp_call =
    Register ip4_addr ether_addr u64
  | Reserve ip4_addr
  | Analyze "(u32 \<Rightarrow> bool) option" "ether_flow \<Rightarrow> arp_pkt \<Rightarrow> int" ether_flow arp_pkt nat

fun call :: "arp_call \<Rightarrow> arp_state \<Rightarrow> outcome \<times> arp_state" where
  "call (Register ip4 ether when) st = arp_register ip4 ether when st"
| "call (Reserve ip4) st = arp_reserve ip4 st"
| "call (Analyze dst_set ethernet_reply fl ap len) st =
     packet_analyze_arp dst_set ethernet_reply fl ap len st"

fun calls :: "(heap \<times> arp_call) list \<Rightarrow> arp_state \<Rightarrow> arp_state" where
  "calls [] st = st"
| "calls ((h, c) # cs) st =
     (case call c (st\<lparr>heap := h\<rparr>) of
        (Return r, st') \<Rightarrow> calls cs st'
      | (Aborted, st') \<Rightarrow> st'
      | (Undefined, st') \<Rightarrow> st')"

text \<open>Concrete inputs for the examples.\<close>

definition host_a :: ip4_addr where "host_a = Ip4 10 0 0 1"
definition host_b :: ip4_addr where "host_b = Ip4 10 0 0 9"
definition mac_a :: ether_addr where "mac_a = Ether 2 0 0 0 0 1"

definition flow_at :: "int \<Rightarrow> ether_flow" where
  "flow_at ms = \<lparr>tv_sec = ms div 1000, tv_usec = (ms mod 1000) * 1000,
     iface_ether = Ether 2 0 0 0 0 254\<rparr>"

definition request_b :: arp_pkt where
  "request_b = \<lparr>htype = 1, ptype = 0x0800, hlen = 6, plen = 4, oper = 1,
     sha = mac_a, spa = host_a, tha = ether_zero, tpa = host_b\<rparr>"

definition transmit_ok :: "ether_flow \<Rightarrow> arp_pkt \<Rightarrow> int" where
  "transmit_ok fl ap = 0"

definition request_at :: "int \<Rightarrow> heap \<times> arp_call" where
  "request_at ms = (replicate 16 True, Analyze None transmit_ok (flow_at ms) request_b 28)"

text \<open>
  The five requests of the claiming scenario; three requests before time 0 that leave
  three requests counted; and a request the target sends for its own address.
\<close>

definition five_requests :: "(heap \<times> arp_call) list" where
  "five_requests = [request_at 0, request_at 1000, request_at 3000, request_at 3500, request_at 4000]"


definition request_own :: arp_pkt where
  "request_own = request_b\<lparr>sha := Ether 2 0 0 0 0 9, spa := host_b\<rparr>"

text \<open>\<open>registers ip4 c\<close>: the call \<open>c\<close> passes \<open>ip4\<close> to \<^verbatim>\<open>arp_register\<close>.\<close>

fun registers :: "ip4_addr \<Rightarrow> arp_call \<Rightarrow> bool" where
  "registers ip4 (Register ip4' ether when) = (ip4' = ip4)"
| "registers ip4 (Reserve ip4') = False"
| "registers ip4 (Analyze dst_set ethernet_reply fl ap len) =
     (valid_header ap len \<and>
      (oper ap = arp_oper_who_has \<and> in_scope dst_set (tpa ap) \<and> spa ap = ip4 \<or>
       oper ap = arp_oper_is_at \<and> (spa ap = ip4 \<or> tpa ap = ip4)))"

text \<open>Trees built by \<^verbatim>\<open>arp_insert\<close> calls alone, whatever they return.\<close>

fun arp_inserts :: "(u32 \<times> u64 \<times> heap) list \<Rightarrow> arpn \<Rightarrow> arpn" where
  "arp_inserts [] t = t"
| "arp_inserts ((addr, when, h) # xs) t = arp_inserts xs (fst (snd (arp_insert t addr when h)))"

text \<open>
  What a call may do to one record: \<open>kept reg x y\<close> relates the record \<open>x\<close> before to the
  record \<open>y\<close> after, where \<open>reg\<close> says whether the record's address was registered in
  between.  \<open>node_kept\<close> extends this to records that may be absent or get created.
\<close>

definition kept :: "bool \<Rightarrow> arpn_fields \<Rightarrow> arpn_fields \<Rightarrow> bool" where
  "kept reg x y =
     ((an_reserved x \<longrightarrow> an_reserved y \<and> an_claimed y = an_claimed x) \<and>
      (\<not> reg \<longrightarrow> an_ether y = an_ether x))"

definition node_kept :: "bool \<Rightarrow> arpn_fields option \<Rightarrow> arpn_fields option \<Rightarrow> bool" where
  "node_kept reg a b =
     (case b of
        None \<Rightarrow> a = None
      | Some y \<Rightarrow> (case a of None \<Rightarrow> \<not> reg \<longrightarrow> an_ether y = ether_zero | Some x \<Rightarrow> kept reg x y))"

section \<open>The address aggregator (\<^verbatim>\<open>lib/libft/ft_ip4agg.c\<close>)\<close>

subsection \<open>Data\<close>

text \<open>
  The three tunables are file-static variables that nothing in the file assigns to.
\<close>

definition ip4a_bits :: nat where "ip4a_bits = 4"
definition ip4a_minplen :: nat where "ip4a_minplen = 8"
definition ip4a_maxplen :: nat where "ip4a_maxplen = 32"

text \<open>
  \<^verbatim>\<open>struct ip4a_node\<close>.  \<^verbatim>\<open>coverage\<close> is an \<^verbatim>\<open>unsigned long\<close>, taken as 64 bits wide (the
  constant \<^verbatim>\<open>0xffffffffLU\<close> is shifted by up to 32 and \<^verbatim>\<open>mask + 1LU\<close> must hold \<open>2\<^sup>3\<^sup>2\<close>).
  The one-bit field \<^verbatim>\<open>leaf\<close> is only tested for being non-zero.
\<close>

record ip4a_fields =
  n_addr :: u32
  n_plen :: u8
  n_leaf :: bool
  n_coverage :: u64

datatype ip4a_node = Ip4a (nf: ip4a_fields) (n_sub: "ip4a_node option list")

definition set_fields :: "(ip4a_fields \<Rightarrow> ip4a_fields) \<Rightarrow> ip4a_node \<Rightarrow> ip4a_node" where
  "set_fields f n = Ip4a (f (nf n)) (n_sub n)"

definition set_child :: "nat \<Rightarrow> ip4a_node \<Rightarrow> ip4a_node \<Rightarrow> ip4a_node" where
  "set_child i sn n = Ip4a (nf n) ((n_sub n)[i := Some sn])"

text \<open>
  \<^verbatim>\<open>ip4a_new\<close>: a zeroed node with the leaf flag set, or \<^verbatim>\<open>NULL\<close> (\<open>None\<close>) when \<^verbatim>\<open>calloc\<close>
  fails.
\<close>

definition ip4a_zero :: ip4a_node where
  "ip4a_zero = Ip4a \<lparr>n_addr = 0, n_plen = 0, n_leaf = False, n_coverage = 0\<rparr> (replicate 16 None)"

definition ip4a_new :: "heap \<Rightarrow> ip4a_node option \<times> heap" where
  "ip4a_new h =
     (case calloc h of
        (False, h') \<Rightarrow> (None, h')
      | (True, h') \<Rightarrow> (Some (set_fields (\<lambda>f. f\<lparr>n_leaf := True\<rparr>) ip4a_zero), h'))"

text \<open>
  \<^verbatim>\<open>ip4a_delete\<close> frees every child subtree and stores \<^verbatim>\<open>NULL\<close> in each of the sixteen
  slots; freeing has no effect that the model can observe.
\<close>

definition ip4a_delete :: "ip4a_node \<Rightarrow> ip4a_node" where
  "ip4a_delete n = Ip4a (nf n) (replicate (2 ^ ip4a_bits) None)"

subsection \<open>\<^verbatim>\<open>ip4a_insert\<close>\<close>

text \<open>
  The result is \<open>None\<close> where C leaves the behaviour undefined (a shift count outside
  the width of the shifted type, an index outside \<^verbatim>\<open>sub[16]\<close>), and otherwise the return
  value with the node as the call left it and the remaining \<^verbatim>\<open>calloc\<close> outcomes: the
  node is changed in place, also when the call returns -1.

  \<open>ip4a_insert_loop n first last' i lsub\<close> is the \<^verbatim>\<open>for\<close> loop of \<^verbatim>\<open>ip4a_insert\<close> from index
  \<open>i\<close> on, with \<open>first\<close> and \<open>last'\<close> already clipped; \<^verbatim>\<open>splen\<close> is \<^verbatim>\<open>n->plen + ip4a_bits\<close>
  throughout.  \<^verbatim>\<open>mincov\<close> is a \<^verbatim>\<open>uint32_t\<close>, so \<^verbatim>\<open>mask + 1LU\<close> is cut to 32 bits there.
\<close>

fun nodes :: "ip4a_node \<Rightarrow> nat" where
  "nodes (Ip4a f subs) = Suc (sum_list (map (\<lambda>s. case s of None \<Rightarrow> 0 | Some c \<Rightarrow> nodes c) subs))"

definition nodes_from :: "ip4a_node \<Rightarrow> nat \<Rightarrow> nat" where
  "nodes_from n i =
     sum_list (map (\<lambda>s. case s of None \<Rightarrow> 0 | Some c \<Rightarrow> nodes c) (drop i (n_sub n)))"

lemma nodes_eq: "nodes n = Suc (nodes_from n 0)"
  by (cases n) (simp add: nodes_from_def)

lemma nodes_from_Suc: "nodes_from n (Suc i) \<le> nodes_from n i"
proof (cases "i < length (n_sub n)")
  case True
  then show ?thesis
    by (simp add: nodes_from_def Cons_nth_drop_Suc [symmetric])
next
  case False
  then show ?thesis by (simp add: nodes_from_def)
qed

lemma nodes_from_le: "nodes_from n i \<le> nodes_from n 0"
  by (induction i) (auto intro: order_trans [OF nodes_from_Suc])

lemma nodes_child: "i < length (n_sub n) \<Longrightarrow> n_sub n ! i = Some c \<Longrightarrow> nodes c \<le> nodes_from n i"
  by (simp add: nodes_from_def Cons_nth_drop_Suc [symmetric])

lemma nodes_from_set_child:
  "nodes_from (set_fields f (set_child i c n)) (Suc i) = nodes_from n (Suc i)"
  by (simp add: nodes_from_def set_fields_def set_child_def)

lemma n_plen_set_child:
  "(\<And>x. n_plen (f x) = n_plen x) \<Longrightarrow> n_plen (nf (set_fields f (set_child i c n))) = n_plen (nf n)"
  by (simp add: set_fields_def set_child_def)

function ip4a_insert :: "ip4a_node \<Rightarrow> u32 \<Rightarrow> u32 \<Rightarrow> heap \<Rightarrow> (int \<times> ip4a_node \<times> heap) option"
  and ip4a_insert_loop ::
    "ip4a_node \<Rightarrow> u32 \<Rightarrow> u32 \<Rightarrow> nat \<Rightarrow> nat \<Rightarrow> heap \<Rightarrow> (int \<times> ip4a_node \<times> heap) option"
where
  "ip4a_insert n first last' h =
     (if 64 \<le> unat (n_plen (nf n)) then None
      else
        let mask = (ucast (drop_bit (unat (n_plen (nf n))) (0xffffffff :: u64)) :: u32);
            first = (if first < n_addr (nf n) then n_addr (nf n) else first);
            last' = (if last' > (n_addr (nf n) OR mask) then n_addr (nf n) OR mask else last')
        in
          if ip4a_minplen \<le> unat (n_plen (nf n)) \<and>
             ((first = n_addr (nf n) \<and> last' = (n_addr (nf n) OR mask)) \<or>
              ip4a_maxplen < unat (n_plen (nf n)) + ip4a_bits)
          then
            Some (0, set_fields (\<lambda>f. f\<lparr>n_leaf := True, n_coverage := ucast mask + 1\<rparr>)
                       (ip4a_delete n), h)
          else
            let splen = unat (n_plen (nf n)) + ip4a_bits;
                fsub = unat (drop_bit (32 - splen) first mod 2 ^ ip4a_bits);
                lsub = unat (drop_bit (32 - splen) last' mod 2 ^ ip4a_bits)
            in
              (case ip4a_insert_loop n first last' fsub lsub h of
                 None \<Rightarrow> None
               | Some (ret, n', h') \<Rightarrow>
                   if ret \<noteq> 0 then Some (ret, n', h')
                   else
                     let mincov = (mask + 1 :: u32) in
                     if ip4a_minplen \<le> unat (n_plen (nf n')) \<and> mincov > 0 \<and>
                        n_coverage (nf n') \<ge> ucast mincov
                     then
                       Some (0, set_fields (\<lambda>f. f\<lparr>n_leaf := True, n_coverage := ucast mask + 1\<rparr>)
                                  (ip4a_delete n'), h')
                     else Some (0, n', h')))"
| "ip4a_insert_loop n first last' i lsub h =
     (if i \<le> lsub then
        (let splen = unat (n_plen (nf n)) + ip4a_bits in
         if \<not> i < length (n_sub n) then None
        else
          (case n_sub n ! i of
             Some sn \<Rightarrow>
               (case ip4a_insert sn first last' h of
                  None \<Rightarrow> None
                | Some (ret, sn', h') \<Rightarrow>
                    let n' = set_fields (\<lambda>f. f\<lparr>n_coverage := n_coverage f + n_coverage (nf sn')\<rparr>)
                               (set_child i sn' n)
                    in if ret \<noteq> 0 then Some (ret, n', h')
                       else ip4a_insert_loop n' first last' (Suc i) lsub h')
           | None \<Rightarrow>
               (case calloc h of
                  (False, h') \<Rightarrow> Some (- 1, n, h')
                | (True, h') \<Rightarrow>
                    if 32 < splen then None
                    else
                      let sn = Ip4a \<lparr>n_addr = n_addr (nf n) OR push_bit (32 - splen) (word_of_nat i),
                                      n_plen = word_of_nat splen, n_leaf = True, n_coverage = 0\<rparr>
                                 (replicate 16 None)
                      in
                        (case ip4a_insert sn first last' h' of
                           None \<Rightarrow> None
                         | Some (ret, sn', h'') \<Rightarrow>
                             let n' = set_fields
                                        (\<lambda>f. f\<lparr>n_leaf := False,
                                               n_coverage := n_coverage f + n_coverage (nf sn')\<rparr>)
                                        (set_child i sn' n)
                             in if ret \<noteq> 0 then Some (ret, n', h'')
                                else ip4a_insert_loop n' first last' (Suc i) lsub h''))))
      else Some (0, n, h))"
  by pat_completeness auto

termination
proof (relation "inv_image (less_than <*lex*> less_than <*lex*> less_than <*lex*> less_than)
     (\<lambda>x. case x of
        Inl (n, first, last', h) \<Rightarrow> (nodes n, 32 - unat (n_plen (nf n)), 1, 0)
      | Inr (n, first, last', i, lsub, h) \<Rightarrow>
          (Suc (nodes_from n i), 32 - unat (n_plen (nf n)), 0, Suc lsub - i))", goal_cases)
  case 1
  show ?case by (intro wf_inv_image wf_lex_prod wf_less_than)
next
  case (2 n first last' h)
  show ?case
    using nodes_from_le [of n] by (auto simp: nodes_eq le_less)
next
  case (3 n first last' i lsub h splen ok h' sn)
  then have le: "unat (n_plen (nf n)) \<le> 28"
    by (simp add: ip4a_bits_def)
  then have "unat (n_plen (nf n) + 4) = unat (n_plen (nf n)) + 4"
    by (simp add: unat_word_ariths)
  moreover have "n_plen (nf sn) = n_plen (nf n) + 4" "nodes sn = 1"
    using 3 by (simp_all add: ip4a_bits_def)
  ultimately show ?case
    using le by (cases "nodes_from n i") auto
next
  case (4 n first last' i lsub h)
  then show ?case
    using nodes_from_Suc [of n i] by (auto simp: nodes_from_set_child n_plen_set_child le_less)
next
  case (5 n first last' i lsub h splen sn)
  then show ?case
    using nodes_child [of i n sn] by (auto simp: le_less)
next
  case (6 n first last' i lsub h)
  then show ?case
    using nodes_from_Suc [of n i] by (auto simp: nodes_from_set_child n_plen_set_child le_less)
qed

declare ip4a_insert.simps [simp del] ip4a_insert_loop.simps [simp del]

subsection \<open>\<^verbatim>\<open>ip4a_lookup\<close>, \<^verbatim>\<open>ip4a_count\<close>, \<^verbatim>\<open>ip4a_fprint\<close>\<close>

text \<open>
  \<^verbatim>\<open>ip4a_lookup\<close> returns 1 or 0; \<open>None\<close> is undefined behaviour (the shift count
  \<^verbatim>\<open>32 - n->plen - ip4a_bits\<close> is computed in \<^verbatim>\<open>unsigned int\<close> and wraps when \<^verbatim>\<open>plen\<close> is above 28).
\<close>

function ip4a_lookup :: "ip4a_node \<Rightarrow> u32 \<Rightarrow> int option" where
  "ip4a_lookup n addr =
     (if 64 \<le> unat (n_plen (nf n)) then None
      else
        let mask = (ucast (drop_bit (unat (n_plen (nf n))) (0xffffffff :: u64)) :: u32) in
        if addr \<ge> n_addr (nf n) \<and> addr \<le> (n_addr (nf n) OR mask) then
          (if n_coverage (nf n) = ucast mask + 1 then Some 1
           else if 32 < unat (n_plen (nf n)) + ip4a_bits then None
           else
             let sub = unat (drop_bit (32 - unat (n_plen (nf n)) - ip4a_bits) addr mod 2 ^ ip4a_bits)
             in if \<not> sub < length (n_sub n) then None
                else (case n_sub n ! sub of
                        Some sn \<Rightarrow> ip4a_lookup sn addr
                      | None \<Rightarrow> Some 0))
        else Some 0)"
  by pat_completeness auto
termination
proof (relation "measure (\<lambda>(n, addr). size n)", goal_cases)
  case 1
  show ?case by simp
next
  case (2 n addr mask sub sn)
  then have "Some sn \<in> set (n_sub n)"
    by (metis nth_mem)
  then have "size sn < size n"
    by (cases n) (auto dest!: size_list_estimation' [where f = "size_option size" and y = "size sn"]
        simp: less_Suc_eq_le)
  then show ?case by simp
qed

declare ip4a_lookup.simps [simp del]

definition ip4a_count :: "ip4a_node \<Rightarrow> u64" where
  "ip4a_count n = n_coverage (nf n)"

text \<open>
  \<^verbatim>\<open>ip4a_fprint\<close>: the text written to \<^verbatim>\<open>f\<close>.  \<open>dec\<close> is the conversion \<^verbatim>\<open>%u\<close>.  The loop of
  the source visits the sixteen slots of \<^verbatim>\<open>sub\<close> in index order.
\<close>

function dec :: "nat \<Rightarrow> string" where
  "dec k = (if k < 10 then [char_of (48 + k)] else dec (k div 10) @ [char_of (48 + k mod 10)])"
  by pat_completeness auto
termination
  by (relation "measure id") auto

declare dec.simps [simp del]

fun ip4a_fprint :: "ip4a_node \<Rightarrow> string" where
  "ip4a_fprint (Ip4a f subs) =
     (if n_leaf f then
        dec (unat (drop_bit 24 (n_addr f) AND 0xff)) @ ''.'' @
        dec (unat (drop_bit 16 (n_addr f) AND 0xff)) @ ''.'' @
        dec (unat (drop_bit 8 (n_addr f) AND 0xff)) @ ''.'' @
        dec (unat (n_addr f AND 0xff)) @
        (if unat (n_plen f) < 32 then ''/'' @ dec (unat (n_plen f)) else []) @
        [CHR 0x0A]
      else
        concat (map (\<lambda>s. case s of None \<Rightarrow> [] | Some c \<Rightarrow> ip4a_fprint c) subs))"

subsection \<open>Trees built by \<^verbatim>\<open>ip4a_new\<close> and \<^verbatim>\<open>ip4a_insert\<close>\<close>

text \<open>
  \<open>ip4a_empty\<close> is the node \<^verbatim>\<open>ip4a_new\<close> returns when \<^verbatim>\<open>calloc\<close> succeeds.  \<open>ip4a_inserts\<close>
  runs a sequence of \<^verbatim>\<open>ip4a_insert\<close> calls on the root, each with the outcomes of its own
  \<^verbatim>\<open>calloc\<close> calls, and gives the tree as long as every call returned 0.  \<open>ip4a_nodes\<close> lists
  the headers of all nodes of a tree, a node before its children.
\<close>

definition ip4a_empty :: ip4a_node where
  "ip4a_empty = set_fields (\<lambda>f. f\<lparr>n_leaf := True\<rparr>) ip4a_zero"

fun ip4a_inserts :: "(u32 \<times> u32 \<times> heap) list \<Rightarrow> ip4a_node \<Rightarrow> ip4a_node option" where
  "ip4a_inserts [] n = Some n"
| "ip4a_inserts ((first, last', h) # rs) n =
     (case ip4a_insert n first last' h of
        None \<Rightarrow> None
      | Some (ret, n', h') \<Rightarrow> if ret = 0 then ip4a_inserts rs n' else None)"

fun ip4a_nodes :: "ip4a_node \<Rightarrow> ip4a_fields list" where
  "ip4a_nodes (Ip4a f subs) =
     f # concat (map (\<lambda>s. case s of None \<Rightarrow> [] | Some c \<Rightarrow> ip4a_nodes c) subs)"

text \<open>
  The shape of a subtree whose root is \<open>r\<close> levels above the /32 nodes: the prefix length
  is \<open>32 - 4 r\<close>, the address is a multiple of the subnet size \<open>2\<^sup>4\<^sup>r\<close>, a node with the leaf
  flag has no children, the child in slot \<open>i\<close> is the \<open>i\<close>-th sixteenth of the subnet, and
  every child with the leaf flag covers its whole subnet (\<open>ip4a_full\<close>).
\<close>

definition ip4a_full :: "nat \<Rightarrow> ip4a_node \<Rightarrow> bool" where
  "ip4a_full r n \<longleftrightarrow> (n_leaf (nf n) \<longrightarrow> n_coverage (nf n) = 2 ^ (4 * r))"

primrec ip4a_wf :: "nat \<Rightarrow> ip4a_node \<Rightarrow> bool" where
  "ip4a_wf 0 n \<longleftrightarrow> unat (n_plen (nf n)) = 32 \<and> n_sub n = replicate 16 None"
| "ip4a_wf (Suc r) n \<longleftrightarrow>
     unat (n_plen (nf n)) + 4 * Suc r = 32 \<and> length (n_sub n) = 16 \<and>
     2 ^ (4 * Suc r) dvd unat (n_addr (nf n)) \<and>
     (n_leaf (nf n) \<longrightarrow> n_sub n = replicate 16 None) \<and>
     (\<forall>i \<in> {..<16}. case n_sub n ! i of
        None \<Rightarrow> True
      | Some c \<Rightarrow> unat (n_addr (nf c)) = unat (n_addr (nf n)) + i * 2 ^ (4 * r) \<and>
                  ip4a_wf r c \<and> ip4a_full r c)"

subsection \<open>Addresses a tree answers for\<close>

text \<open>
  \<open>ip4a_nib r x\<close> is the slot of address \<open>x\<close> in a node \<open>r + 1\<close> levels above the /32 nodes,
  \<open>ip4a_inside r n x\<close> says that \<open>x\<close> is in the subnet of \<open>n\<close>.  \<open>ip4a_clip_first\<close> and
  \<open>ip4a_clip_last\<close> are the two clipping assignments at the head of \<^verbatim>\<open>ip4a_insert\<close>, and
  \<open>ip4a_leaf r n\<close> is \<open>n\<close> after \<^verbatim>\<open>ip4a_delete(n); n->leaf = 1; n->coverage = mask + 1LU\<close>.
\<close>

definition ip4a_nib :: "nat \<Rightarrow> u32 \<Rightarrow> nat" where
  "ip4a_nib r x = (unat x div 2 ^ (4 * r)) mod 16"

definition ip4a_inside :: "nat \<Rightarrow> ip4a_node \<Rightarrow> u32 \<Rightarrow> bool" where
  "ip4a_inside r n x \<longleftrightarrow>
     unat (n_addr (nf n)) \<le> unat x \<and> unat x < unat (n_addr (nf n)) + 2 ^ (4 * r)"

definition ip4a_clip_first :: "ip4a_node \<Rightarrow> u32 \<Rightarrow> u32" where
  "ip4a_clip_first n a = (if a < n_addr (nf n) then n_addr (nf n) else a)"

definition ip4a_clip_last :: "nat \<Rightarrow> ip4a_node \<Rightarrow> u32 \<Rightarrow> u32" where
  "ip4a_clip_last r n b =
     (if b > (n_addr (nf n) OR mask (4 * r)) then n_addr (nf n) OR mask (4 * r) else b)"

definition ip4a_leaf :: "nat \<Rightarrow> ip4a_node \<Rightarrow> ip4a_node" where
  "ip4a_leaf r n = set_fields (\<lambda>f. f\<lparr>n_leaf := True, n_coverage := 2 ^ (4 * r)\<rparr>) (ip4a_delete n)"

text \<open>
  \<open>ip4a_marked r n x\<close>: on the way from \<open>n\<close> down the slots of \<open>x\<close> there is a node with the
  leaf flag and the coverage of its whole subnet.  \<open>ip4a_sub_marked\<close> is the same from the
  child of \<open>n\<close> on.
\<close>

primrec ip4a_marked :: "nat \<Rightarrow> ip4a_node \<Rightarrow> u32 \<Rightarrow> bool" where
  "ip4a_marked 0 n x \<longleftrightarrow> n_leaf (nf n) \<and> n_coverage (nf n) = 1"
| "ip4a_marked (Suc r) n x \<longleftrightarrow>
     n_leaf (nf n) \<and> n_coverage (nf n) = 2 ^ (4 * Suc r) \<or>
     (case n_sub n ! ip4a_nib r x of
        None \<Rightarrow> False
      | Some c \<Rightarrow> ip4a_marked r c x)"

definition ip4a_sub_marked :: "nat \<Rightarrow> ip4a_node \<Rightarrow> u32 \<Rightarrow> bool" where
  "ip4a_sub_marked r n x \<longleftrightarrow>
     (case n_sub n ! ip4a_nib r x of None \<Rightarrow> False | Some c \<Rightarrow> ip4a_marked r c x)"

text \<open>
  The coverage counters, as far as \<^verbatim>\<open>ip4a_insert\<close> depends on them: from /8 on (\<open>r \<le> 6\<close>) a
  node with the leaf flag has the coverage of its subnet and any other node has less, since
  \<^verbatim>\<open>ip4a_insert\<close> aggregates a node as soon as its counter reaches that number; the root and
  the /4 nodes are never aggregated and have no leaf flag once something was inserted.
  \<open>ip4a_bounded\<close> asks this of all nodes below \<open>n\<close>, \<open>ip4a_start\<close> of \<open>n\<close> itself unless it was
  just allocated.
\<close>

definition ip4a_cov_ok :: "nat \<Rightarrow> ip4a_node \<Rightarrow> bool" where
  "ip4a_cov_ok r n \<longleftrightarrow>
     (if r \<le> 6 then (if n_leaf (nf n) then n_coverage (nf n) = 2 ^ (4 * r)
                       else unat (n_coverage (nf n)) < 2 ^ (4 * r))
      else \<not> n_leaf (nf n))"

primrec ip4a_bounded :: "nat \<Rightarrow> ip4a_node \<Rightarrow> bool" where
  "ip4a_bounded 0 n \<longleftrightarrow> True"
| "ip4a_bounded (Suc r) n \<longleftrightarrow>
     (\<forall>i \<in> {..<16}. case n_sub n ! i of
        None \<Rightarrow> True
      | Some c \<Rightarrow> ip4a_cov_ok r c \<and> ip4a_bounded r c)"

definition ip4a_start :: "nat \<Rightarrow> ip4a_node \<Rightarrow> bool" where
  "ip4a_start r n \<longleftrightarrow> ip4a_cov_ok r n \<or> n_leaf (nf n) \<and> n_coverage (nf n) = 0"

text \<open>The range 0.0.0.0 to 0.0.0.7 inserted twice; the first call allocates fifteen nodes.\<close>

definition twice :: "(u32 \<times> u32 \<times> heap) list" where
  "twice = [(0, 7, replicate 15 True), (0, 7, [])]"

section \<open>The ARP tracker: trees, lookups and the request counter\<close>

lemma mod16: "(x :: 'a::len word) mod 16 = take_bit 4 x"
  using take_bit_eq_mod [of 4 x] by simp

lemma nibble_less: "nibble r addr < 16"
proof -
  have "drop_bit (4 * r) addr mod 16 < 16"
    by (rule word_mod_less_divisor) simp
  then show ?thesis
    unfolding nibble_def by (simp add: word_less_nat_alt)
qed

lemma plen_step:
  assumes "unat (p :: u8) + 4 * Suc r = 32"
  shows "p \<noteq> 32" "unat (p + 4) = 32 - 4 * r" "unat (p + 4) + 4 * r = 32"
proof -
  from assms have "unat p \<le> 28" by simp
  then show "p \<noteq> 32" by auto
  have "unat (p + 4) = unat p + 4"
    using \<open>unat p \<le> 28\<close> by (simp add: unat_word_ariths)
  with assms show "unat (p + 4) = 32 - 4 * r" "unat (p + 4) + 4 * r = 32" by simp_all
qed

lemma arp_insert_leaf:
  "arp_wf 0 n \<Longrightarrow> arp_insert n addr w h =
     (if an_addr (hdr n) = addr then (Node [], n, h) else (Assert_failed, n, h))"
  by (simp add: arp_insert.simps)

lemma arp_insert_inner:
  assumes "arp_wf (Suc r) n"
  shows "arp_insert n addr w h =
     (case an_sub n ! nibble r addr of
        Some sn \<Rightarrow> (case arp_insert sn addr w h of
                      (rn, sn', h') \<Rightarrow> (below (nibble r addr) rn, set_sub (nibble r addr) sn' n, h'))
      | None \<Rightarrow> (case calloc h of
                   (False, h') \<Rightarrow> (Null, n, h')
                 | (True, h') \<Rightarrow>
                     (case arp_insert (fresh n r (nibble r addr) w) addr w h' of
                        (rn, sn', h'') \<Rightarrow> (below (nibble r addr) rn, set_sub (nibble r addr) sn' n, h''))))"
proof -
  from assms have p: "unat (an_plen (hdr n)) + 4 * Suc r = 32" and l: "length (an_sub n) = 16"
    by simp_all
  note ps = plen_step [OF p]
  have r: "r < 8" using p by simp
  have s: "32 - (32 - 4 * r) = 4 * r" using r by simp
  have u: "unat (an_plen (hdr n) + 4) = 32 - 4 * r" by (rule ps)
  have nf: "\<not> (32::nat) < 32 - 4 * r" "(32::nat) - 4 * r \<noteq> 0" "\<not> 8 \<le> r"
    using r by simp_all
  show ?thesis
    apply (subst arp_insert.simps)
    apply (simp only: ps(1) if_False Let_def u s)
    apply (simp add: nf l nibble_less nibble_def [symmetric] fresh_def del: arp_wf.simps
         split: option.split prod.split bool.split)
    done
qed

lemma hdr_upd_fields [simp]: "hdr (upd_fields f n) = f (hdr n)"
  and an_sub_upd_fields [simp]: "an_sub (upd_fields f n) = an_sub n"
  and hdr_set_sub [simp]: "hdr (set_sub i c n) = hdr n"
  and an_sub_set_sub [simp]: "an_sub (set_sub i c n) = (an_sub n)[i := Some c]"
  by (simp_all add: upd_fields_def set_sub_def)

lemma set_sub_same: "i < length (an_sub n) \<Longrightarrow> an_sub n ! i = Some c \<Longrightarrow> set_sub i c n = n"
  by (cases n) (simp add: set_sub_def list_update_same_conv)

lemma hdr_modify: "hdr (modify p f n) = (if p = [] then f (hdr n) else hdr n)"
  by (cases p) (simp_all split: option.split)

lemma deref_modify:
  "map_option hdr (deref (modify p f t) q) =
     (if q = p then map_option (\<lambda>n. f (hdr n)) (deref t p) else map_option hdr (deref t q))"
proof (induction p arbitrary: t q)
  case Nil
  then show ?case by (cases q) simp_all
next
  case (Cons i p)
  show ?case
  proof (cases q)
    case Nil
    then show ?thesis by (simp add: hdr_modify split: option.split)
  next
    case (Cons j q')
    show ?thesis
    proof (cases "i < length (an_sub t)")
      case False
      then show ?thesis by (simp add: Cons)
    next
      case True
      show ?thesis
      proof (cases "an_sub t ! i")
        case None
        then show ?thesis using True by (auto simp: Cons)
      next
        case (Some c)
        show ?thesis
        proof (cases "j = i")
          case True
          with Some \<open>i < length (an_sub t)\<close> show ?thesis
            using Cons.IH [of c q'] by (simp add: Cons)
        next
          case False
          with Some \<open>i < length (an_sub t)\<close> show ?thesis
            by (simp add: Cons)
        qed
      qed
    qed
  qed
qed

lemma arp_wf_modify:
  assumes "\<And>x. an_plen (f x) = an_plen x" "\<And>x. an_addr (f x) = an_addr x"
  shows "arp_wf r t \<Longrightarrow> arp_wf r (modify p f t)"
proof (induction r arbitrary: t p)
  case 0
  then show ?case by (cases p) (simp_all add: assms)
next
  case (Suc r)
  show ?case
  proof (cases p)
    case Nil
    with Suc.prems show ?thesis by (auto simp: assms split: option.split)
  next
    case (Cons i p')
    show ?thesis
    proof (cases "i < length (an_sub t) \<and> an_sub t ! i \<noteq> None")
      case False
      with Suc.prems Cons show ?thesis by (auto split: option.split)
    next
      case True
      then obtain c where c: "an_sub t ! i = Some c" and i: "i < 16"
        using Suc.prems by auto
      from Suc.prems c i have wc: "arp_wf r c"
        and ac: "an_addr (hdr c) = an_addr (hdr t) OR push_bit (4 * r) (word_of_nat i)"
        by (auto dest!: spec [where x = i])
      have "arp_wf r (modify p' f c)" by (rule Suc.IH [OF wc])
      moreover have "an_addr (hdr (modify p' f c)) = an_addr (hdr c)"
        by (simp add: hdr_modify assms)
      ultimately show ?thesis
        using Suc.prems c i ac Cons True
        by (auto simp: nth_list_update split: option.split)
    qed
  qed
qed

lemma child_addr:
  assumes "r < 8"
  shows "push_bit (4 * Suc r) (drop_bit (4 * Suc r) (a::u32)) OR
         push_bit (4 * r) (word_of_nat (nibble r a)) = push_bit (4 * r) (drop_bit (4 * r) a)"
  unfolding nibble_def mod16
proof (rule bit_word_eqI)
  fix n assume "n < LENGTH(32)"
  show "bit (push_bit (4 * Suc r) (drop_bit (4 * Suc r) a) OR
             push_bit (4 * r) (word_of_nat (unat (take_bit 4 (drop_bit (4 * r) a))))) n
        = bit (push_bit (4 * r) (drop_bit (4 * r) a)) n"
    by (cases "4 * Suc r \<le> n") (auto simp: bit_simps)
qed

lemma wf_child:
  "arp_wf (Suc r) n \<Longrightarrow> i < 16 \<Longrightarrow> an_sub n ! i = Some c \<Longrightarrow>
     arp_wf r c \<and> an_addr (hdr c) = an_addr (hdr n) OR push_bit (4 * r) (word_of_nat i)"
  by (auto dest!: spec [where x = i])

lemma wf_set_sub:
  "arp_wf (Suc r) n \<Longrightarrow> i < 16 \<Longrightarrow> arp_wf r c \<Longrightarrow>
   an_addr (hdr c) = an_addr (hdr n) OR push_bit (4 * r) (word_of_nat i) \<Longrightarrow>
   arp_wf (Suc r) (set_sub i c n)"
  by (auto simp: nth_list_update split: option.split)

lemma wf_fresh: "arp_wf (Suc r) n \<Longrightarrow> arp_wf r (fresh n r i w)"
proof (cases r)
  case 0
  assume "arp_wf (Suc r) n"
  with 0 have "unat (an_plen (hdr n) + 4) = 32"
    using plen_step(2) [of "an_plen (hdr n)" 0] by simp
  then have "an_plen (hdr n) + 4 = 32"
    by (simp add: word_unat_eq_iff)
  with 0 show ?thesis
    by (simp add: fresh_def arpn_zero_def)
next
  case (Suc r')
  assume "arp_wf (Suc r) n"
  then have "unat (an_plen (hdr n) + 4) + 4 * r = 32"
    using plen_step(3) [of "an_plen (hdr n)" r] by simp
  with Suc show ?thesis
    by (simp add: fresh_def arpn_zero_def)
qed

lemma deref_set_sub:
  "i < length (an_sub n) \<Longrightarrow>
   deref (set_sub i c n) (j # q) = (if j = i then deref c q else deref n (j # q))"
  by (simp add: nth_list_update)

lemma deref_fresh: "deref (fresh n r i w) q = (if q = [] then Some (fresh n r i w) else None)"
  by (cases q) (simp_all add: fresh_def arpn_zero_def)

lemma arp_insert_post:
  "arp_wf r n \<Longrightarrow> an_addr (hdr n) = push_bit (4 * r) (drop_bit (4 * r) addr) \<Longrightarrow>
   insert_post r n addr w h (arp_insert n addr w h)"
proof (induction r arbitrary: n h)
  case 0
  then show ?case
    by (simp add: arp_insert_leaf insert_post_def)
next
  case (Suc r)
  let ?i = "nibble r addr"
  have i: "?i < 16" by (rule nibble_less)
  have r: "r < 8" using Suc.prems(1) by simp
  have len: "length (an_sub n) = 16" using Suc.prems(1) by simp
  note ca = child_addr [OF r, of addr, folded Suc.prems(2)]
  have step: "insert_post (Suc r) n addr w h (below ?i rn, set_sub ?i c' n, h')"
    if c: "arp_wf r c" "an_addr (hdr c) = an_addr (hdr n) OR push_bit (4 * r) (word_of_nat ?i)"
      and old: "an_sub n ! ?i = Some c \<and> hh = h \<or>
                an_sub n ! ?i = None \<and> deref c = (\<lambda>q. if q = [] then Some c else None) \<and>
                  (r = 0 \<longrightarrow> c = leaf0 addr w)"
      and post: "insert_post r c addr w hh (rn, c', h')"
    for c rn c' h' hh
  proof -
    from post have c': "arp_wf r c'" "hdr c' = hdr c"
      and frame: "\<And>q. length q = r \<Longrightarrow> q \<noteq> path r addr \<Longrightarrow> deref c' q = deref c q"
      and at: "case deref c (path r addr) of
           Some m \<Rightarrow> rn = Node (path r addr) \<and> c' = c \<and> h' = hh \<and> an_addr (hdr m) = addr
         | None \<Rightarrow> rn = Null \<and> deref c' (path r addr) = None \<or>
                   rn = Node (path r addr) \<and> deref c' (path r addr) = Some (leaf0 addr w)"
      by (simp_all add: insert_post_def)
    have wf': "arp_wf (Suc r) (set_sub ?i c' n)"
      using Suc.prems(1) i c' c(2) by (intro wf_set_sub) simp_all
    have fr: "deref (set_sub ?i c' n) q = deref n q" if "length q = Suc r" "q \<noteq> path (Suc r) addr" for q
    proof -
      from that obtain j q' where q: "q = j # q'" "length q' = r" by (cases q) auto
      show ?thesis
      proof (cases "j = ?i")
        case False
        then show ?thesis using i len by (simp add: q)
      next
        case True
        with that q have "q' \<noteq> path r addr" by simp
        then have "deref c' q' = deref c q'" using q by (intro frame)
        moreover have "q' \<noteq> []" using \<open>q' \<noteq> path r addr\<close> q by (cases r) auto
        ultimately show ?thesis
          using old True i len by (auto simp: q)
      qed
    qed
    have here: "case deref n (path (Suc r) addr) of
           Some m \<Rightarrow> below ?i rn = Node (path (Suc r) addr) \<and> set_sub ?i c' n = n \<and> h' = h \<and>
                     an_addr (hdr m) = addr
         | None \<Rightarrow> below ?i rn = Null \<and> deref (set_sub ?i c' n) (path (Suc r) addr) = None \<or>
                   below ?i rn = Node (path (Suc r) addr) \<and>
                   deref (set_sub ?i c' n) (path (Suc r) addr) = Some (leaf0 addr w)"
    proof (cases "an_sub n ! ?i")
      case (Some c0)
      with old have [simp]: "c0 = c" "hh = h" by auto
      show ?thesis
        using at Some i len
        by (auto simp: set_sub_same split: option.splits)
    next
      case None
      with old have d: "deref c = (\<lambda>q. if q = [] then Some c else None)"
        and l: "r = 0 \<longrightarrow> c = leaf0 addr w" by auto
      show ?thesis
      proof (cases r)
        case 0
        with at d l show ?thesis
          using None i len by (auto split: option.splits)
      next
        case (Suc r')
        then have "deref c (path r addr) = None" by (simp add: d)
        with at show ?thesis
          using None i len by (auto split: option.splits)
      qed
    qed
    show ?thesis
      unfolding insert_post_def using wf' fr here by simp
  qed
  show ?case
  proof (cases "an_sub n ! ?i")
    case (Some c)
    from wf_child [OF Suc.prems(1) i Some]
    have c: "arp_wf r c" "an_addr (hdr c) = an_addr (hdr n) OR push_bit (4 * r) (word_of_nat ?i)"
      by simp_all
    have "insert_post r c addr w h (arp_insert c addr w h)"
      using c ca by (intro Suc.IH) simp_all
    then show ?thesis
      using step [OF c, where hh = h] Some
      by (auto simp: arp_insert_inner [OF Suc.prems(1)] simp del: arp_wf.simps path.simps
          split: prod.split)
  next
    case None
    show ?thesis
    proof (cases "calloc h")
      case (Pair ok hh)
      show ?thesis
      proof (cases ok)
        case False
        have "deref n (path (Suc r) addr) = None"
          using None i len by simp
        then show ?thesis
          using None Pair False Suc.prems(1)
          by (simp add: arp_insert_inner [OF Suc.prems(1)] insert_post_def del: arp_wf.simps path.simps)
      next
        case True
        let ?c = "fresh n r ?i w"
        have c: "arp_wf r ?c" "an_addr (hdr ?c) = an_addr (hdr n) OR push_bit (4 * r) (word_of_nat ?i)"
          using wf_fresh [OF Suc.prems(1)] by (simp_all add: fresh_def)
        have l: "r = 0 \<longrightarrow> ?c = leaf0 addr w"
        proof
          assume "r = 0"
          then have "an_plen (hdr n) + 4 = 32" and "an_addr (hdr ?c) = addr"
            using c ca by (simp_all add: fresh_def arpn_zero_def)
          then show "?c = leaf0 addr w"
            by (simp add: fresh_def leaf0_def arpn_zero_def upd_fields_def)
        qed
        have "insert_post r ?c addr w hh (arp_insert ?c addr w hh)"
          using c ca by (intro Suc.IH) simp_all
        then show ?thesis
          using step [OF c, where hh = hh] None Pair True l
          by (auto simp: arp_insert_inner [OF Suc.prems(1)] deref_fresh fun_eq_iff
              simp del: arp_wf.simps path.simps split: prod.split)
      qed
    qed
  qed
qed

lemma div16: "(x :: 'a::len word) div 16 = drop_bit 4 x"
  using drop_bit_eq_div [of 4 x] by simp

lemma bit_u8: "bit (x :: u8) n \<Longrightarrow> n < 8"
  using bit_imp_le_length [of x n] by simp

lemma unat_ucast_u8: "unat (ucast (x :: u8) :: u32) = unat x"
proof -
  have "unat x < 2 ^ 8" using unsigned_less [of x, where 'a = nat] by simp
  then have "unat x < 2 ^ 32" by simp
  then show ?thesis by (simp add: unsigned_ucast_eq take_bit_nat_eq_self)
qed

lemma nibbles_be32toh_q:
  "drop_bit 28 (be32toh_q ip) mod 16 = ucast (o0 ip div 16)"
  "drop_bit 24 (be32toh_q ip) mod 16 = ucast (o0 ip mod 16)"
  "drop_bit 20 (be32toh_q ip) mod 16 = ucast (o1 ip div 16)"
  "drop_bit 16 (be32toh_q ip) mod 16 = ucast (o1 ip mod 16)"
  "drop_bit 12 (be32toh_q ip) mod 16 = ucast (o2 ip div 16)"
  "drop_bit 8 (be32toh_q ip) mod 16 = ucast (o2 ip mod 16)"
  "drop_bit 4 (be32toh_q ip) mod 16 = ucast (o3 ip div 16)"
  "be32toh_q ip mod 16 = ucast (o3 ip mod 16)"
  unfolding mod16 div16 be32toh_q_def
  by (rule bit_word_eqI; auto simp: bit_simps dest: bit_u8)+

lemma path_numeral:
  "path (numeral k) a = nibble (pred_numeral k) a # path (pred_numeral k) a"
  by (simp add: numeral_eq_Suc)

lemma ip_path_eq: "ip_path ip = path 8 (be32toh_q ip)"
  by (simp add: ip_path_def path_numeral nibble_def nibbles_be32toh_q unat_ucast_u8)

lemma ip_path_inj: "ip_path a = ip_path b \<Longrightarrow> a = b"
proof -
  have o: "unat (x :: u8) = 16 * unat (x div 16) + unat (x mod 16)" for x
    by (simp add: unat_div unat_mod)
  assume "ip_path a = ip_path b"
  then have "unat (o0 a) = unat (o0 b)" "unat (o1 a) = unat (o1 b)"
    "unat (o2 a) = unat (o2 b)" "unat (o3 a) = unat (o3 b)"
    by (simp_all add: ip_path_def o [of "o0 a"] o [of "o0 b"] o [of "o1 a"] o [of "o1 b"]
        o [of "o2 a"] o [of "o2 b"] o [of "o3 a"] o [of "o3 b"])
  then show ?thesis
    by (simp add: ip4_addr.expand word_unat_eq_iff)
qed

lemma length_ip_path [simp]: "length (ip_path ip) = 8"
  by (simp add: ip_path_def)

lemma arp_wf_numeral:
  "arp_wf (numeral k) n =
     (unat (an_plen (hdr n)) + 4 * numeral k = 32 \<and> length (an_sub n) = 16 \<and>
      (\<forall>i<16. case an_sub n ! i of None \<Rightarrow> True
         | Some c \<Rightarrow> an_addr (hdr c) =
                       an_addr (hdr n) OR push_bit (4 * pred_numeral k) (word_of_nat i) \<and>
                     arp_wf (pred_numeral k) c))"
  by (simp add: numeral_eq_Suc)

lemma tree_inv_zero: "tree_inv arpn_zero"
  by (simp add: tree_inv_def arpn_zero_def arp_wf_numeral)

lemma insert_root:
  assumes inv: "tree_inv t"
    and ins: "arp_insert t (be32toh_q ip) w h = (res, t', h')"
  shows "tree_inv t'"
    and "ip' \<noteq> ip \<Longrightarrow> node_of t' ip' = node_of t ip'"
    and "res = Null \<and> node_of t ip = None \<and> node_of t' ip = None \<or>
         res = Node (ip_path ip) \<and> node_of t' ip = Some (before t ip w)"
proof -
  from inv have wf: "arp_wf 8 t"
    and pre: "an_addr (hdr t) = push_bit (4 * 8) (drop_bit (4 * 8) (be32toh_q ip))"
    by (simp_all add: tree_inv_def)
  from arp_insert_post [OF wf pre, of w h] ins
  have post: "insert_post 8 t (be32toh_q ip) w h (res, t', h')" by simp
  then show "tree_inv t'"
    using inv by (simp add: insert_post_def tree_inv_def)
  show "node_of t' ip' = node_of t ip'" if "ip' \<noteq> ip"
  proof -
    from that have "ip_path ip' \<noteq> ip_path ip"
      using ip_path_inj [of ip' ip] by blast
    then have "ip_path ip' \<noteq> path 8 (be32toh_q ip)"
      by (metis ip_path_eq)
    with post show ?thesis
      by (simp add: insert_post_def node_of_def)
  qed
  from post show "res = Null \<and> node_of t ip = None \<and> node_of t' ip = None \<or>
         res = Node (ip_path ip) \<and> node_of t' ip = Some (before t ip w)"
    by (auto simp: insert_post_def node_of_def before_def ip_path_eq [symmetric] leaf0_def
        record0_def split: option.splits)
qed

lemma node_of_modify:
  "node_of (modify (ip_path ip) f t) ip' =
     (if ip' = ip then map_option f (node_of t ip) else node_of t ip')"
  using ip_path_inj [of ip' ip]
  by (auto simp: node_of_def deref_modify option.map_comp comp_def)

lemma tree_inv_modify:
  assumes "\<And>x. an_plen (f x) = an_plen x" "\<And>x. an_addr (f x) = an_addr x"
  shows "tree_inv t \<Longrightarrow> tree_inv (modify (ip_path ip) f t)"
proof -
  assume "tree_inv t"
  moreover have "ip_path ip \<noteq> []" by (simp add: ip_path_def)
  ultimately show ?thesis
    using assms arp_wf_modify [of f 8 t "ip_path ip"]
    by (simp add: tree_inv_def hdr_modify)
qed

lemma node_of_deref:
  "node_of t ip = Some x \<Longrightarrow> \<exists>n. deref t (ip_path ip) = Some n \<and> hdr n = x"
  by (auto simp: node_of_def)

lemma arp_reply_eq:
  "arp_reply er fl iap st =
     (if er fl (is_at_reply fl iap) \<noteq> 0 then - 1 else 0, st\<lparr>sent := sent st @ [is_at_reply fl iap]\<rparr>)"
  by (simp add: arp_reply_def is_at_reply_def Let_def)

lemma arp_register_effect:
  assumes "arp_inv st" and "arp_register ip e w st = (out, st')"
  shows "arp_inv st'" and "sent st' = sent st"
    and "ip' \<noteq> ip \<Longrightarrow> arp_node ip' st' = arp_node ip' st"
    and "out = Return (- 1) \<and> arp_node ip st = None \<and> arp_node ip st' = None \<or>
         out = Return 0 \<and>
         arp_node ip st' = Some ((before (arp_root st) ip w)\<lparr>an_ether := e, an_nreq := 0\<rparr>)"
proof -
  obtain res t h where ins: "arp_insert (arp_root st) (be32toh_q ip) w (heap st) = (res, t, h)"
    by (cases "arp_insert (arp_root st) (be32toh_q ip) w (heap st)")
  note r = insert_root [OF assms(1) [unfolded arp_inv_def] ins]
  let ?f = "\<lambda>f. (if an_ether f \<noteq> e then f\<lparr>an_ether := e\<rparr> else f)\<lparr>an_nreq := 0\<rparr>"
  have f: "?f = (\<lambda>f. f\<lparr>an_ether := e, an_nreq := 0\<rparr>)" by (rule ext) simp
  from r(3) show "arp_inv st'"
    using assms(2) ins r(1) tree_inv_modify [of ?f t ip]
    by (auto simp: arp_register_def arp_inv_def)
  from r(3) show "sent st' = sent st"
    using assms(2) ins by (auto simp: arp_register_def)
  from r(3) show "arp_node ip' st' = arp_node ip' st" if "ip' \<noteq> ip"
    using assms(2) ins r(2) [OF that] that
    by (auto simp: arp_register_def arp_node_def node_of_modify)
  from r(3) show "out = Return (- 1) \<and> arp_node ip st = None \<and> arp_node ip st' = None \<or>
         out = Return 0 \<and>
         arp_node ip st' = Some ((before (arp_root st) ip w)\<lparr>an_ether := e, an_nreq := 0\<rparr>)"
    using assms(2) ins
    by (auto simp: arp_register_def arp_node_def node_of_modify)
qed

lemma arp_reserve_effect:
  assumes "arp_inv st" and "arp_reserve ip st = (out, st')"
  shows "arp_inv st'" and "sent st' = sent st"
    and "ip' \<noteq> ip \<Longrightarrow> arp_node ip' st' = arp_node ip' st"
    and "out = Return (- 1) \<and> arp_node ip st = None \<and> arp_node ip st' = None \<or>
         out = Return 0 \<and>
         arp_node ip st' = Some ((before (arp_root st) ip 0)\<lparr>an_reserved := True\<rparr>)"
proof -
  obtain res t h where ins: "arp_insert (arp_root st) (be32toh_q ip) 0 (heap st) = (res, t, h)"
    by (cases "arp_insert (arp_root st) (be32toh_q ip) 0 (heap st)")
  note r = insert_root [OF assms(1) [unfolded arp_inv_def] ins]
  from r(3) show "arp_inv st'"
    using assms(2) ins r(1) tree_inv_modify [of "\<lambda>f. f\<lparr>an_reserved := True\<rparr>" t ip]
    by (auto simp: arp_reserve_def arp_inv_def)
  from r(3) show "sent st' = sent st"
    using assms(2) ins by (auto simp: arp_reserve_def)
  from r(3) show "arp_node ip' st' = arp_node ip' st" if "ip' \<noteq> ip"
    using assms(2) ins r(2) [OF that] that
    by (auto simp: arp_reserve_def arp_node_def node_of_modify)
  from r(3) show "out = Return (- 1) \<and> arp_node ip st = None \<and> arp_node ip st' = None \<or>
         out = Return 0 \<and>
         arp_node ip st' = Some ((before (arp_root st) ip 0)\<lparr>an_reserved := True\<rparr>)"
    using assms(2) ins
    by (auto simp: arp_reserve_def arp_node_def node_of_modify)
qed

lemma who_has_target_effect:
  assumes inv: "arp_inv st" and x: "arp_node (tpa ap) st = Some x"
    and run: "who_has_target er fl ap w (ip_path (tpa ap)) st = (out, st')"
  shows "arp_inv st'"
    and "ip' \<noteq> tpa ap \<Longrightarrow> arp_node ip' st' = arp_node ip' st"
    and "if an_reserved x then
           out = Return 0 \<and> sent st' = sent st \<and> arp_node (tpa ap) st' = Some (x\<lparr>an_nreq := 0\<rparr>)
         else if an_claimed x then
           out = (if er fl (is_at_reply fl ap) \<noteq> 0 then Return (- 1) else Return 0) \<and>
           sent st' = sent st @ [is_at_reply fl ap] \<and>
           arp_node (tpa ap) st' = Some (x\<lparr>an_nreq := 0, an_last := w\<rparr>)
         else if an_nreq x = 0 \<or> w - an_last x \<ge> 30000 then
           out = Return 0 \<and> sent st' = sent st \<and>
           arp_node (tpa ap) st' = Some (x\<lparr>an_nreq := 1, an_first := w, an_last := w\<rparr>)
         else if an_nreq x \<ge> 3 \<and> w - an_first x \<ge> 3000 then
           out = (if er fl (is_at_reply fl ap) \<noteq> 0 then Return (- 1) else Return 0) \<and>
           sent st' = sent st @ [is_at_reply fl ap] \<and>
           arp_node (tpa ap) st' = Some (x\<lparr>an_claimed := True, an_nreq := 0, an_last := w\<rparr>)
         else
           out = Return 0 \<and> sent st' = sent st \<and>
           arp_node (tpa ap) st' = Some (x\<lparr>an_nreq := an_nreq x + 1, an_last := w\<rparr>)"
proof -
  from x obtain n where n: "deref (arp_root st) (ip_path (tpa ap)) = Some n" "hdr n = x"
    by (auto simp: arp_node_def dest: node_of_deref)
  have nx: "node_of (arp_root st) (tpa ap) = Some x"
    using x by (simp add: arp_node_def)
  from inv have ti: "tree_inv (arp_root st)" by (simp add: arp_inv_def)
  note m = tree_inv_modify [OF _ _ ti, of _ "tpa ap"]
  show "arp_inv st'"
    using run n m [of "\<lambda>f. f\<lparr>an_nreq := 0\<rparr>"] m [of "\<lambda>f. f\<lparr>an_nreq := 0, an_last := w\<rparr>"]
      m [of "\<lambda>f. f\<lparr>an_nreq := 1, an_first := w, an_last := w\<rparr>"]
      m [of "\<lambda>f. f\<lparr>an_claimed := True, an_nreq := 0, an_last := w\<rparr>"]
      m [of "\<lambda>f. f\<lparr>an_nreq := an_nreq f + 1, an_last := w\<rparr>"]
    by (auto simp: who_has_target_def arp_reply_eq arp_inv_def split: if_splits)
  show "arp_node ip' st' = arp_node ip' st" if "ip' \<noteq> tpa ap"
    using run n that
    by (auto simp: who_has_target_def arp_reply_eq arp_node_def node_of_modify split: if_splits)
  show "if an_reserved x then
           out = Return 0 \<and> sent st' = sent st \<and> arp_node (tpa ap) st' = Some (x\<lparr>an_nreq := 0\<rparr>)
         else if an_claimed x then
           out = (if er fl (is_at_reply fl ap) \<noteq> 0 then Return (- 1) else Return 0) \<and>
           sent st' = sent st @ [is_at_reply fl ap] \<and>
           arp_node (tpa ap) st' = Some (x\<lparr>an_nreq := 0, an_last := w\<rparr>)
         else if an_nreq x = 0 \<or> w - an_last x \<ge> 30000 then
           out = Return 0 \<and> sent st' = sent st \<and>
           arp_node (tpa ap) st' = Some (x\<lparr>an_nreq := 1, an_first := w, an_last := w\<rparr>)
         else if an_nreq x \<ge> 3 \<and> w - an_first x \<ge> 3000 then
           out = (if er fl (is_at_reply fl ap) \<noteq> 0 then Return (- 1) else Return 0) \<and>
           sent st' = sent st @ [is_at_reply fl ap] \<and>
           arp_node (tpa ap) st' = Some (x\<lparr>an_claimed := True, an_nreq := 0, an_last := w\<rparr>)
         else
           out = Return 0 \<and> sent st' = sent st \<and>
           arp_node (tpa ap) st' = Some (x\<lparr>an_nreq := an_nreq x + 1, an_last := w\<rparr>)"
    using run n nx
    by (auto simp: who_has_target_def arp_reply_eq arp_node_def node_of_modify split: if_splits)
qed

lemma arp_register_returns:
  assumes "arp_inv st" and "arp_register ip e w st = (out, st')"
  shows "out = Return (- 1) \<or> out = Return 0"
  using arp_register_effect(4) [OF assms] by blast

lemma analyze_who_has:
  assumes inv: "arp_inv st" and v: "valid_header ap len" "oper ap = arp_oper_who_has"
    "in_scope dst (tpa ap)"
    and run: "packet_analyze_arp dst er fl ap len st = (out, st')"
  obtains r st1 res t h where
    "arp_register (spa ap) (sha ap) (capture_ms fl) st = (Return r, st1)"
    "arp_insert (arp_root st1) (be32toh_q (tpa ap)) (capture_ms fl) (heap st1) = (res, t, h)"
    "res = Null \<and> out = Return (- 1) \<and> st' = st1\<lparr>arp_root := t, heap := h\<rparr> \<or>
     res = Node (ip_path (tpa ap)) \<and>
     who_has_target er fl ap (capture_ms fl) (ip_path (tpa ap)) (st1\<lparr>arp_root := t, heap := h\<rparr>) =
       (out, st')"
proof -
  obtain o1 st1 where reg: "arp_register (spa ap) (sha ap) (capture_ms fl) st = (o1, st1)"
    by (cases "arp_register (spa ap) (sha ap) (capture_ms fl) st")
  from arp_register_returns [OF inv reg] obtain r where o1: "o1 = Return r" by auto
  have inv1: "arp_inv st1" by (rule arp_register_effect(1) [OF inv reg])
  obtain res t h where
    ins: "arp_insert (arp_root st1) (be32toh_q (tpa ap)) (capture_ms fl) (heap st1) = (res, t, h)"
    by (cases "arp_insert (arp_root st1) (be32toh_q (tpa ap)) (capture_ms fl) (heap st1)")
  from insert_root(3) [OF inv1 [unfolded arp_inv_def] ins]
  have res: "res = Null \<or> res = Node (ip_path (tpa ap))" by blast
  have "res = Null \<and> out = Return (- 1) \<and> st' = st1\<lparr>arp_root := t, heap := h\<rparr> \<or>
     res = Node (ip_path (tpa ap)) \<and>
     who_has_target er fl ap (capture_ms fl) (ip_path (tpa ap)) (st1\<lparr>arp_root := t, heap := h\<rparr>) =
       (out, st')"
    using run v reg o1 ins res
    by (auto simp: packet_analyze_arp_def valid_header_def in_scope_def capture_ms_def Let_def
        arp_oper_who_has_def arp_oper_is_at_def split: option.splits)
  with reg o1 ins show ?thesis by (auto intro: that)
qed

lemma analyze_is_at:
  assumes inv: "arp_inv st" and v: "valid_header ap len" "oper ap = arp_oper_is_at"
    and run: "packet_analyze_arp dst er fl ap len st = (out, st')"
  obtains r st1 r' where
    "arp_register (spa ap) (sha ap) (capture_ms fl) st = (Return r, st1)"
    "arp_register (tpa ap) (tha ap) (capture_ms fl) st1 = (Return r', st')"
    "out = Return 0"
proof -
  obtain o1 st1 where reg: "arp_register (spa ap) (sha ap) (capture_ms fl) st = (o1, st1)"
    by (cases "arp_register (spa ap) (sha ap) (capture_ms fl) st")
  from arp_register_returns [OF inv reg] obtain r where o1: "o1 = Return r" by auto
  have inv1: "arp_inv st1" by (rule arp_register_effect(1) [OF inv reg])
  obtain o2 st2 where reg2: "arp_register (tpa ap) (tha ap) (capture_ms fl) st1 = (o2, st2)"
    by (cases "arp_register (tpa ap) (tha ap) (capture_ms fl) st1")
  from arp_register_returns [OF inv1 reg2] obtain r' where o2: "o2 = Return r'" by auto
  have "out = Return 0 \<and> st' = st2"
    using run v reg o1 reg2 o2
    by (auto simp: packet_analyze_arp_def valid_header_def capture_ms_def Let_def
        arp_oper_who_has_def arp_oper_is_at_def)
  with reg o1 reg2 o2 show ?thesis by (auto intro: that)
qed

lemma analyze_ignored:
  assumes "\<not> valid_header ap len \<or> (oper ap \<noteq> arp_oper_who_has \<and> oper ap \<noteq> arp_oper_is_at) \<or>
           (oper ap = arp_oper_who_has \<and> \<not> in_scope dst (tpa ap))"
  shows "snd (packet_analyze_arp dst er fl ap len st) = st"
    and "fst (packet_analyze_arp dst er fl ap len st) =
           (if len < sizeof_arp_pkt then Return (- 1) else Return 0)"
  using assms
  by (auto simp: packet_analyze_arp_def valid_header_def in_scope_def Let_def split: option.splits)

lemma who_has_step:
  assumes inv: "arp_inv st" and req: "who_has_for ip dst ap len"
    and run: "packet_analyze_arp dst er fl ap len st = (Return 0, st')"
    and w: "w = capture_ms fl" and x: "x = before (arp_root st) ip w"
  shows "arp_inv st'"
    and "if an_reserved x then
           sent st' = sent st \<and> arp_node ip st' = Some (x\<lparr>an_nreq := 0\<rparr>)
         else if an_claimed x then
           sent st' = sent st @ [is_at_reply fl ap] \<and>
           arp_node ip st' = Some (x\<lparr>an_nreq := 0, an_last := w\<rparr>)
         else if an_nreq x = 0 \<or> w - an_last x \<ge> 30000 then
           sent st' = sent st \<and>
           arp_node ip st' = Some (x\<lparr>an_nreq := 1, an_first := w, an_last := w\<rparr>)
         else if an_nreq x \<ge> 3 \<and> w - an_first x \<ge> 3000 then
           sent st' = sent st @ [is_at_reply fl ap] \<and>
           arp_node ip st' = Some (x\<lparr>an_claimed := True, an_nreq := 0, an_last := w\<rparr>)
         else
           sent st' = sent st \<and>
           arp_node ip st' = Some (x\<lparr>an_nreq := an_nreq x + 1, an_last := w\<rparr>)"
proof -
  from req have v: "valid_header ap len" "oper ap = arp_oper_who_has" "in_scope dst (tpa ap)"
    and ip: "tpa ap = ip" "spa ap \<noteq> ip"
    by (simp_all add: who_has_for_def)
  from inv v run obtain r st1 res t h where
    reg: "arp_register (spa ap) (sha ap) (capture_ms fl) st = (Return r, st1)" and
    ins: "arp_insert (arp_root st1) (be32toh_q (tpa ap)) (capture_ms fl) (heap st1) = (res, t, h)" and
    tgt: "res = Null \<and> Return 0 = Return (- 1) \<and> st' = st1\<lparr>arp_root := t, heap := h\<rparr> \<or>
     res = Node (ip_path (tpa ap)) \<and>
     who_has_target er fl ap (capture_ms fl) (ip_path (tpa ap)) (st1\<lparr>arp_root := t, heap := h\<rparr>) =
       (Return 0, st')"
    by (rule analyze_who_has)
  let ?st2 = "st1\<lparr>arp_root := t, heap := h\<rparr>"
  from tgt have res: "res = Node (ip_path ip)"
    and wt: "who_has_target er fl ap w (ip_path (tpa ap)) ?st2 = (Return 0, st')"
    using ip w by auto
  note e1 = arp_register_effect [OF inv reg]
  have inv1: "tree_inv (arp_root st1)" using e1(1) by (simp add: arp_inv_def)
  have same: "node_of (arp_root st1) ip = node_of (arp_root st) ip"
    using e1(3) [of ip] ip by (simp add: arp_node_def)
  note e2 = insert_root [OF inv1 ins [unfolded ip]]
  have inv2: "arp_inv ?st2" using e2(1) by (simp add: arp_inv_def)
  have x2: "arp_node (tpa ap) ?st2 = Some x"
    using e2(3) res same by (auto simp: arp_node_def before_def ip x w)
  note e3 = who_has_target_effect [OF inv2 x2 wt]
  show "arp_inv st'" by (rule e3(1))
  have s: "sent ?st2 = sent st" using e1(2) by simp
  from e3(3) show "if an_reserved x then
           sent st' = sent st \<and> arp_node ip st' = Some (x\<lparr>an_nreq := 0\<rparr>)
         else if an_claimed x then
           sent st' = sent st @ [is_at_reply fl ap] \<and>
           arp_node ip st' = Some (x\<lparr>an_nreq := 0, an_last := w\<rparr>)
         else if an_nreq x = 0 \<or> w - an_last x \<ge> 30000 then
           sent st' = sent st \<and>
           arp_node ip st' = Some (x\<lparr>an_nreq := 1, an_first := w, an_last := w\<rparr>)
         else if an_nreq x \<ge> 3 \<and> w - an_first x \<ge> 3000 then
           sent st' = sent st @ [is_at_reply fl ap] \<and>
           arp_node ip st' = Some (x\<lparr>an_claimed := True, an_nreq := 0, an_last := w\<rparr>)
         else
           sent st' = sent st \<and>
           arp_node ip st' = Some (x\<lparr>an_nreq := an_nreq x + 1, an_last := w\<rparr>)"
    unfolding ip s by (simp only: if_split [where P = "\<lambda>b. b"] simp_thms) blast
qed

lemma analyze_inv:
  assumes inv: "arp_inv st" and run: "packet_analyze_arp dst er fl ap len st = (out, st')"
  shows "arp_inv st'" and "out = Return (- 1) \<or> out = Return 0"
proof -
  have "arp_inv st' \<and> (out = Return (- 1) \<or> out = Return 0)"
  proof -
    consider (ignored) "\<not> valid_header ap len \<or>
         (oper ap \<noteq> arp_oper_who_has \<and> oper ap \<noteq> arp_oper_is_at) \<or>
         (oper ap = arp_oper_who_has \<and> \<not> in_scope dst (tpa ap))"
      | (who_has) "valid_header ap len" "oper ap = arp_oper_who_has" "in_scope dst (tpa ap)"
      | (is_at) "valid_header ap len" "oper ap = arp_oper_is_at"
      by blast
    then show ?thesis
    proof cases
    case ignored
    from analyze_ignored [OF this, of er fl st] run inv show ?thesis by auto
  next
    case who_has
    from inv who_has run obtain r st1 res t h where
      reg: "arp_register (spa ap) (sha ap) (capture_ms fl) st = (Return r, st1)" and
      ins: "arp_insert (arp_root st1) (be32toh_q (tpa ap)) (capture_ms fl) (heap st1) = (res, t, h)" and
      tgt: "res = Null \<and> out = Return (- 1) \<and> st' = st1\<lparr>arp_root := t, heap := h\<rparr> \<or>
        res = Node (ip_path (tpa ap)) \<and>
        who_has_target er fl ap (capture_ms fl) (ip_path (tpa ap)) (st1\<lparr>arp_root := t, heap := h\<rparr>) =
          (out, st')"
      by (rule analyze_who_has)
    have inv1: "tree_inv (arp_root st1)"
      using arp_register_effect(1) [OF inv reg] by (simp add: arp_inv_def)
    note e2 = insert_root [OF inv1 ins]
    have inv2: "arp_inv (st1\<lparr>arp_root := t, heap := h\<rparr>)" using e2(1) by (simp add: arp_inv_def)
    from tgt show ?thesis
    proof
      assume "res = Null \<and> out = Return (- 1) \<and> st' = st1\<lparr>arp_root := t, heap := h\<rparr>"
      with inv2 show ?thesis by simp
    next
      assume a: "res = Node (ip_path (tpa ap)) \<and>
        who_has_target er fl ap (capture_ms fl) (ip_path (tpa ap)) (st1\<lparr>arp_root := t, heap := h\<rparr>) =
          (out, st')"
      with e2(3) obtain x where x: "arp_node (tpa ap) (st1\<lparr>arp_root := t, heap := h\<rparr>) = Some x"
        by (auto simp: arp_node_def)
      from who_has_target_effect(1,3) [OF inv2 x, of er fl "capture_ms fl" out st'] a
      show ?thesis by (auto split: if_splits)
    qed
  next
    case is_at
    from inv is_at run obtain r st1 r' where
      reg: "arp_register (spa ap) (sha ap) (capture_ms fl) st = (Return r, st1)" and
      reg2: "arp_register (tpa ap) (tha ap) (capture_ms fl) st1 = (Return r', st')" and
      out: "out = Return 0"
      by (rule analyze_is_at)
    from arp_register_effect(1) [OF arp_register_effect(1) [OF inv reg] reg2] out
    show ?thesis by simp
  qed
  qed
  then show "arp_inv st'" and "out = Return (- 1) \<or> out = Return 0" by simp_all
qed

lemma arp_inv_heap [simp]: "arp_inv (st\<lparr>heap := h\<rparr>) = arp_inv st"
  by (simp add: arp_inv_def)

lemma arp_node_heap [simp]: "arp_node ip (st\<lparr>heap := h\<rparr>) = arp_node ip st"
  by (simp add: arp_node_def)

lemma call_inv:
  assumes "arp_inv st" and "call c st = (out, st')"
  shows "arp_inv st'" and "out = Return (- 1) \<or> out = Return 0"
  using assms arp_register_effect(1,4) [of st _ _ _ out st'] arp_reserve_effect(1,4) [of st _ out st']
    analyze_inv [of st _ _ _ _ _ out st']
  by (cases c; auto)+

lemma calls_inv: "arp_inv st \<Longrightarrow> arp_inv (calls cs st)"
proof (induction cs arbitrary: st)
  case Nil
  then show ?case by simp
next
  case (Cons hc cs)
  obtain h c where hc: "hc = (h, c)" by (cases hc)
  obtain out st' where c: "call c (st\<lparr>heap := h\<rparr>) = (out, st')"
    by (cases "call c (st\<lparr>heap := h\<rparr>)")
  from Cons.prems have "arp_inv (st\<lparr>heap := h\<rparr>)" by simp
  from call_inv [OF this c] Cons.IH [of st'] show ?case
    using hc c by auto
qed

lemma arp_inv_init: "arp_inv arp_init"
  by (simp add: arp_inv_def arp_init_def tree_inv_zero)

lemma arp_inv_reachable: "arp_inv (calls cs arp_init)"
  by (rule calls_inv [OF arp_inv_init])

lemma before_Some: "arp_node ip st = Some y \<Longrightarrow> before (arp_root st) ip w = y"
  and before_None: "arp_node ip st = None \<Longrightarrow> before (arp_root st) ip w = record0 ip w"
  by (simp_all add: before_def arp_node_def)

lemma before_heap [simp]: "before (arp_root (st\<lparr>heap := h\<rparr>)) ip w = before (arp_root st) ip w"
  by simp

lemma who_has_forI: "who_has_request ip dst ap len \<Longrightarrow> spa ap \<noteq> ip \<Longrightarrow> who_has_for ip dst ap len"
  by (simp add: who_has_request_def who_has_for_def)

lemma who_has_step_any:
  assumes inv: "arp_inv st" and req: "who_has_request ip dst ap len"
    and run: "packet_analyze_arp dst er fl ap len st = (Return 0, st')"
    and w: "w = capture_ms fl" and x0: "x0 = before (arp_root st) ip w"
  obtains x where
    "an_claimed x = an_claimed x0" "an_reserved x = an_reserved x0" "an_first x = an_first x0"
    "an_last x = an_last x0" "an_nreq x = (if spa ap = ip then 0 else an_nreq x0)"
    and "arp_inv st'"
    and "if an_reserved x then
           sent st' = sent st \<and> arp_node ip st' = Some (x\<lparr>an_nreq := 0\<rparr>)
         else if an_claimed x then
           sent st' = sent st @ [is_at_reply fl ap] \<and>
           arp_node ip st' = Some (x\<lparr>an_nreq := 0, an_last := w\<rparr>)
         else if an_nreq x = 0 \<or> w - an_last x \<ge> 30000 then
           sent st' = sent st \<and>
           arp_node ip st' = Some (x\<lparr>an_nreq := 1, an_first := w, an_last := w\<rparr>)
         else if an_nreq x \<ge> 3 \<and> w - an_first x \<ge> 3000 then
           sent st' = sent st @ [is_at_reply fl ap] \<and>
           arp_node ip st' = Some (x\<lparr>an_claimed := True, an_nreq := 0, an_last := w\<rparr>)
         else
           sent st' = sent st \<and>
           arp_node ip st' = Some (x\<lparr>an_nreq := an_nreq x + 1, an_last := w\<rparr>)"
proof -
  from req have v: "valid_header ap len" "oper ap = arp_oper_who_has" "in_scope dst (tpa ap)"
    and ip: "tpa ap = ip"
    by (simp_all add: who_has_request_def)
  from inv v run obtain r st1 res t h where
    reg: "arp_register (spa ap) (sha ap) (capture_ms fl) st = (Return r, st1)" and
    ins: "arp_insert (arp_root st1) (be32toh_q (tpa ap)) (capture_ms fl) (heap st1) = (res, t, h)" and
    tgt: "res = Null \<and> Return 0 = Return (- 1) \<and> st' = st1\<lparr>arp_root := t, heap := h\<rparr> \<or>
     res = Node (ip_path (tpa ap)) \<and>
     who_has_target er fl ap (capture_ms fl) (ip_path (tpa ap)) (st1\<lparr>arp_root := t, heap := h\<rparr>) =
       (Return 0, st')"
    by (rule analyze_who_has)
  let ?st2 = "st1\<lparr>arp_root := t, heap := h\<rparr>"
  from tgt have res: "res = Node (ip_path ip)"
    and wt: "who_has_target er fl ap w (ip_path (tpa ap)) ?st2 = (Return 0, st')"
    using ip w by auto
  note e1 = arp_register_effect [OF inv reg]
  have inv1: "tree_inv (arp_root st1)" using e1(1) by (simp add: arp_inv_def)
  define x where "x = before (arp_root st1) ip w"
  have rel: "an_claimed x = an_claimed x0 \<and> an_reserved x = an_reserved x0 \<and>
      an_first x = an_first x0 \<and> an_last x = an_last x0 \<and>
      an_nreq x = (if spa ap = ip then 0 else an_nreq x0)"
  proof (cases "spa ap = ip")
    case False
    then have "node_of (arp_root st1) ip = node_of (arp_root st) ip"
      using e1(3) [of ip] by (simp add: arp_node_def)
    then show ?thesis using False by (simp add: x_def x0 before_def)
  next
    case True
    from e1(4) [unfolded True] show ?thesis
    proof
      assume "Return r = Return (- 1) \<and> arp_node ip st = None \<and> arp_node ip st1 = None"
      then show ?thesis
        using True by (simp add: x_def x0 before_None record0_def)
    next
      assume "Return r = Return 0 \<and>
         arp_node ip st1 = Some ((before (arp_root st) ip (capture_ms fl))\<lparr>an_ether := sha ap, an_nreq := 0\<rparr>)"
      then show ?thesis
        using True w by (simp add: x_def x0 before_Some)
    qed
  qed
  note e2 = insert_root [OF inv1 ins [unfolded ip]]
  have inv2: "arp_inv ?st2" using e2(1) by (simp add: arp_inv_def)
  have x2: "arp_node (tpa ap) ?st2 = Some x"
    using e2(3) res by (auto simp: arp_node_def ip x_def w)
  note e3 = who_has_target_effect [OF inv2 x2 wt]
  have s: "sent ?st2 = sent st" using e1(2) by simp
  from e3(3) have chain: "if an_reserved x then
           sent st' = sent st \<and> arp_node ip st' = Some (x\<lparr>an_nreq := 0\<rparr>)
         else if an_claimed x then
           sent st' = sent st @ [is_at_reply fl ap] \<and>
           arp_node ip st' = Some (x\<lparr>an_nreq := 0, an_last := w\<rparr>)
         else if an_nreq x = 0 \<or> w - an_last x \<ge> 30000 then
           sent st' = sent st \<and>
           arp_node ip st' = Some (x\<lparr>an_nreq := 1, an_first := w, an_last := w\<rparr>)
         else if an_nreq x \<ge> 3 \<and> w - an_first x \<ge> 3000 then
           sent st' = sent st @ [is_at_reply fl ap] \<and>
           arp_node ip st' = Some (x\<lparr>an_claimed := True, an_nreq := 0, an_last := w\<rparr>)
         else
           sent st' = sent st \<and>
           arp_node ip st' = Some (x\<lparr>an_nreq := an_nreq x + 1, an_last := w\<rparr>)"
    unfolding ip s by (simp only: if_split [where P = "\<lambda>b. b"] simp_thms) blast
  from rel show thesis
    by (intro that [of x] e3(1) chain) simp_all
qed

lemma fold_bind_None: "fold (\<lambda>i m. Option.bind m (sub_at i)) q None = None"
  by (induction q) simp_all

lemma deref_fold:
  "arp_wf r t \<Longrightarrow> length q = r \<Longrightarrow> \<forall>i\<in>set q. i < 16 \<Longrightarrow>
   fold (\<lambda>i m. Option.bind m (sub_at i)) q (Some t) = deref t q"
proof (induction r arbitrary: t q)
  case 0
  then show ?case by simp
next
  case (Suc r)
  from Suc.prems obtain i q' where q: "q = i # q'" "length q' = r" "i < 16" "\<forall>i\<in>set q'. i < 16"
    by (cases q) auto
  from Suc.prems(1) have len: "length (an_sub t) = 16" by simp
  show ?case
  proof (cases "an_sub t ! i")
    case None
    then have "sub_at i t = None" by (simp add: sub_at_def)
    then show ?thesis using q len None by (simp add: fold_bind_None)
  next
    case (Some c)
    then have s: "sub_at i t = Some c" by (simp add: sub_at_def)
    from wf_child [OF Suc.prems(1) q(3) Some] have "arp_wf r c" by simp
    from Suc.IH [OF this q(2) q(4)] show ?thesis
      using q len Some s by simp
  qed
qed

lemma ip_path_less: "\<forall>i\<in>set (ip_path ip). i < 16"
proof -
  have d: "unat (x div 16) < 16" and m: "unat (x mod 16) < 16" for x :: u8
    using unsigned_less [of x, where 'a = nat] by (simp_all add: unat_div unat_mod)
  show ?thesis by (simp add: ip_path_def d m)
qed

lemma arp_lookup_node:
  assumes "arp_inv st"
  shows "arp_lookup ip st = map_option an_ether (arp_node ip st)"
proof -
  have "arp_lookup ip st =
      map_option (\<lambda>an. an_ether (hdr an))
        (fold (\<lambda>i m. Option.bind m (sub_at i)) (ip_path ip) (Some (arp_root st)))"
    by (simp add: arp_lookup_def ip_path_def split: option.split)
  also have "fold (\<lambda>i m. Option.bind m (sub_at i)) (ip_path ip) (Some (arp_root st)) =
      deref (arp_root st) (ip_path ip)"
    using assms by (intro deref_fold [where r = 8] ip_path_less) (simp_all add: arp_inv_def tree_inv_def)
  finally show ?thesis
    by (simp add: arp_node_def node_of_def option.map_comp comp_def)
qed

lemma deref_leaf:
  "arp_wf r t \<Longrightarrow> length q = r \<Longrightarrow> deref t q = Some m \<Longrightarrow> arp_wf 0 m"
proof (induction r arbitrary: t q)
  case 0
  then show ?case by simp
next
  case (Suc r)
  from Suc.prems obtain i q' where q: "q = i # q'" "length q' = r" by (cases q) auto
  from Suc.prems(1) have len: "length (an_sub t) = 16" by simp
  from Suc.prems(3) q len obtain c where c: "i < 16" "an_sub t ! i = Some c" "deref c q' = Some m"
    by (auto split: if_splits option.splits)
  from wf_child [OF Suc.prems(1) c(1,2)] Suc.IH [OF _ q(2) c(3)] show ?case by simp
qed

lemma node_kept_refl: "node_kept reg a a"
  by (simp add: node_kept_def kept_def split: option.split)

lemma node_kept_trans:
  "node_kept r1 a b \<Longrightarrow> node_kept r2 b c \<Longrightarrow> node_kept (r1 \<or> r2) a c"
  by (auto simp: node_kept_def kept_def split: option.splits)

lemma node_kept_mono: "node_kept r a b \<Longrightarrow> (r \<Longrightarrow> r') \<Longrightarrow> node_kept r' a b"
  by (auto simp: node_kept_def kept_def split: option.splits)

lemma node_kept_before:
  assumes "kept reg (before (arp_root st) ip w) y"
  shows "node_kept reg (arp_node ip st) (Some y)"
  using assms by (auto simp: node_kept_def before_def arp_node_def record0_def kept_def
      split: option.splits)

lemma register_kept:
  assumes "arp_inv st" and "arp_register ip' e w st = (out, st')"
  shows "node_kept (ip' = ip) (arp_node ip st) (arp_node ip st')"
proof (cases "ip' = ip")
  case False
  with arp_register_effect(3) [OF assms, of ip] show ?thesis by (simp add: node_kept_refl)
next
  case True
  from arp_register_effect(4) [OF assms] show ?thesis
    unfolding True
    by (auto simp: node_kept_refl kept_def intro!: node_kept_before)
qed

lemma reserve_kept:
  assumes "arp_inv st" and "arp_reserve ip' st = (out, st')"
  shows "node_kept False (arp_node ip st) (arp_node ip st')"
proof (cases "ip' = ip")
  case False
  with arp_reserve_effect(3) [OF assms, of ip] show ?thesis by (simp add: node_kept_refl)
next
  case True
  from arp_reserve_effect(4) [OF assms] show ?thesis
    unfolding True
    by (auto simp: node_kept_refl kept_def intro!: node_kept_before)
qed

lemma insert_kept:
  assumes "arp_inv st"
    and "arp_insert (arp_root st) (be32toh_q ip') w (heap st) = (res, t, h)"
  shows "node_kept False (arp_node ip st) (arp_node ip (st\<lparr>arp_root := t, heap := h\<rparr>))"
proof (cases "ip' = ip")
  case False
  with insert_root(2) [OF assms(1) [unfolded arp_inv_def] assms(2), of ip] show ?thesis
    by (simp add: node_kept_refl arp_node_def)
next
  case True
  from insert_root(3) [OF assms(1) [unfolded arp_inv_def] assms(2)] show ?thesis
    unfolding True
    by (auto simp: node_kept_refl kept_def arp_node_def
        intro!: node_kept_before [unfolded arp_node_def])
qed

lemma who_has_target_kept:
  assumes inv: "arp_inv st" and x: "arp_node (tpa ap) st = Some x"
    and run: "who_has_target er fl ap w (ip_path (tpa ap)) st = (out, st')"
  shows "node_kept False (arp_node ip st) (arp_node ip st')"
    and "\<exists>rs. sent st' = sent st @ rs \<and>
           (\<forall>p\<in>set rs. spa p = tpa ap \<and> \<not> an_reserved x)"
proof -
  note e = who_has_target_effect [OF inv x run]
  show "node_kept False (arp_node ip st) (arp_node ip st')"
  proof (cases "tpa ap = ip")
    case False
    with e(2) [of ip] show ?thesis by (simp add: node_kept_refl)
  next
    case True
    from e(3) x show ?thesis
      unfolding True
      by (auto simp: node_kept_def kept_def split: if_splits)
  qed
  from e(3) show "\<exists>rs. sent st' = sent st @ rs \<and>
           (\<forall>p\<in>set rs. spa p = tpa ap \<and> \<not> an_reserved x)"
    by (auto simp: is_at_reply_def split: if_splits)
qed

lemma analyze_kept:
  assumes inv: "arp_inv st" and run: "packet_analyze_arp dst er fl ap len st = (out, st')"
  shows "node_kept (registers ip (Analyze dst er fl ap len)) (arp_node ip st) (arp_node ip st') \<and>
         (\<exists>rs. sent st' = sent st @ rs \<and>
           (\<forall>p\<in>set rs. spa p = ip \<longrightarrow> \<not> (\<exists>x. arp_node ip st = Some x \<and> an_reserved x)))"
proof -
  consider (ignored) "\<not> valid_header ap len \<or>
         (oper ap \<noteq> arp_oper_who_has \<and> oper ap \<noteq> arp_oper_is_at) \<or>
         (oper ap = arp_oper_who_has \<and> \<not> in_scope dst (tpa ap))"
    | (who_has) "valid_header ap len" "oper ap = arp_oper_who_has" "in_scope dst (tpa ap)"
    | (is_at) "valid_header ap len" "oper ap = arp_oper_is_at"
    by blast
  then show ?thesis
  proof cases
    case ignored
    from analyze_ignored(1) [OF this, of er fl st] run have "st' = st" by simp
    then show ?thesis by (simp add: node_kept_refl)
  next
    case who_has
    from inv who_has run obtain r st1 res t h where
      reg: "arp_register (spa ap) (sha ap) (capture_ms fl) st = (Return r, st1)" and
      ins: "arp_insert (arp_root st1) (be32toh_q (tpa ap)) (capture_ms fl) (heap st1) = (res, t, h)" and
      tgt: "res = Null \<and> out = Return (- 1) \<and> st' = st1\<lparr>arp_root := t, heap := h\<rparr> \<or>
        res = Node (ip_path (tpa ap)) \<and>
        who_has_target er fl ap (capture_ms fl) (ip_path (tpa ap)) (st1\<lparr>arp_root := t, heap := h\<rparr>) =
          (out, st')"
      by (rule analyze_who_has)
    let ?st2 = "st1\<lparr>arp_root := t, heap := h\<rparr>"
    note e1 = arp_register_effect [OF inv reg]
    have inv1: "arp_inv st1" by (rule e1(1))
    have inv2: "arp_inv ?st2"
      using insert_root(1) [OF inv1 [unfolded arp_inv_def] ins] by (simp add: arp_inv_def)
    have k1: "node_kept (spa ap = ip) (arp_node ip st) (arp_node ip st1)"
      by (rule register_kept [OF inv reg])
    have k2: "node_kept False (arp_node ip st1) (arp_node ip ?st2)"
      by (rule insert_kept [OF inv1 ins])
    have k12: "node_kept (spa ap = ip) (arp_node ip st) (arp_node ip ?st2)"
      using node_kept_trans [OF k1 k2] by simp
    have regs: "registers ip (Analyze dst er fl ap len) = (spa ap = ip)"
      using who_has by (simp add: arp_oper_who_has_def arp_oper_is_at_def)
    from tgt show ?thesis
    proof
      assume "res = Null \<and> out = Return (- 1) \<and> st' = ?st2"
      with k12 e1(2) show ?thesis unfolding regs by simp
    next
      assume a: "res = Node (ip_path (tpa ap)) \<and>
        who_has_target er fl ap (capture_ms fl) (ip_path (tpa ap)) ?st2 = (out, st')"
      with insert_root(3) [OF inv1 [unfolded arp_inv_def] ins]
      obtain x where x: "arp_node (tpa ap) ?st2 = Some x"
        by (auto simp: arp_node_def)
      from a have wt: "who_has_target er fl ap (capture_ms fl) (ip_path (tpa ap)) ?st2 = (out, st')"
        by simp
      note k3 = who_has_target_kept(1) [OF inv2 x wt, of ip] who_has_target_kept(2) [OF inv2 x wt]
      have k: "node_kept (spa ap = ip) (arp_node ip st) (arp_node ip st')"
        using node_kept_trans [OF k12 k3(1)] by simp
      from k3(2) obtain rs where rs: "sent st' = sent ?st2 @ rs"
        "\<forall>p\<in>set rs. spa p = tpa ap \<and> \<not> an_reserved x" by blast
      have "\<not> (\<exists>y. arp_node ip st = Some y \<and> an_reserved y)" if "p \<in> set rs" "spa p = ip" for p
      proof
        assume "\<exists>y. arp_node ip st = Some y \<and> an_reserved y"
        then obtain y where y: "arp_node ip st = Some y" "an_reserved y" by blast
        from that rs(2) have "tpa ap = ip" "\<not> an_reserved x" by auto
        with x k12 y show False
          by (auto simp: node_kept_def kept_def)
      qed
      with rs(1) e1(2) k show ?thesis
        unfolding regs by auto
    qed
  next
    case is_at
    from inv is_at run obtain r st1 r' where
      reg: "arp_register (spa ap) (sha ap) (capture_ms fl) st = (Return r, st1)" and
      reg2: "arp_register (tpa ap) (tha ap) (capture_ms fl) st1 = (Return r', st')" and
      out: "out = Return 0"
      by (rule analyze_is_at)
    note e1 = arp_register_effect [OF inv reg]
    note e2 = arp_register_effect [OF e1(1) reg2]
    have regs: "registers ip (Analyze dst er fl ap len) = (spa ap = ip \<or> tpa ap = ip)"
      using is_at by (simp add: arp_oper_who_has_def arp_oper_is_at_def)
    from node_kept_trans [OF register_kept [OF inv reg, of ip] register_kept [OF e1(1) reg2, of ip]]
    show ?thesis
      unfolding regs using e1(2) e2(2) by simp
  qed
qed

lemma call_kept:
  assumes inv: "arp_inv st" and run: "call c st = (out, st')"
  shows "node_kept (registers ip c) (arp_node ip st) (arp_node ip st')"
    and "\<exists>rs. sent st' = sent st @ rs \<and>
           (\<forall>p\<in>set rs. spa p = ip \<longrightarrow> \<not> (\<exists>x. arp_node ip st = Some x \<and> an_reserved x))"
proof -
  have "node_kept (registers ip c) (arp_node ip st) (arp_node ip st') \<and>
        (\<exists>rs. sent st' = sent st @ rs \<and>
           (\<forall>p\<in>set rs. spa p = ip \<longrightarrow> \<not> (\<exists>x. arp_node ip st = Some x \<and> an_reserved x)))"
  proof (cases c)
    case (Register ip' e w)
    with run have r: "arp_register ip' e w st = (out, st')" by simp
    from register_kept [OF inv r, of ip] arp_register_effect(2) [OF inv r] show ?thesis
      by (simp add: Register)
  next
    case (Reserve ip')
    with run have r: "arp_reserve ip' st = (out, st')" by simp
    from reserve_kept [OF inv r, of ip] arp_reserve_effect(2) [OF inv r] show ?thesis
      by (simp add: Reserve)
  next
    case (Analyze dst er fl ap len)
    with run have r: "packet_analyze_arp dst er fl ap len st = (out, st')" by simp
    from analyze_kept [OF inv r, of ip] show ?thesis
      by (simp only: Analyze)
  qed
  then show "node_kept (registers ip c) (arp_node ip st) (arp_node ip st')"
    and "\<exists>rs. sent st' = sent st @ rs \<and>
           (\<forall>p\<in>set rs. spa p = ip \<longrightarrow> \<not> (\<exists>x. arp_node ip st = Some x \<and> an_reserved x))"
    by simp_all
qed

lemma calls_unregistered:
  "arp_inv st \<Longrightarrow> \<forall>c\<in>set cs. \<not> registers ip (snd c) \<Longrightarrow>
   node_kept False (arp_node ip st) (arp_node ip (calls cs st))"
proof (induction cs arbitrary: st)
  case Nil
  then show ?case by (simp add: node_kept_refl)
next
  case (Cons hc cs)
  obtain h c where hc: "hc = (h, c)" by (cases hc)
  obtain out st' where c: "call c (st\<lparr>heap := h\<rparr>) = (out, st')"
    by (cases "call c (st\<lparr>heap := h\<rparr>)")
  from Cons.prems have inv: "arp_inv (st\<lparr>heap := h\<rparr>)" by simp
  from Cons.prems hc have nr: "\<not> registers ip c" "\<forall>c\<in>set cs. \<not> registers ip (snd c)" by simp_all
  from call_kept(1) [OF inv c, of ip] nr(1)
  have k: "node_kept False (arp_node ip st) (arp_node ip st')" by simp
  from call_inv [OF inv c] have inv': "arp_inv st'" and out: "out = Return (- 1) \<or> out = Return 0"
    by simp_all
  from node_kept_trans [OF k Cons.IH [OF inv' nr(2)]] out show ?case
    using hc c by auto
qed

lemma calls_reserved:
  "arp_inv st \<Longrightarrow> arp_node ip st = Some x \<Longrightarrow> an_reserved x \<Longrightarrow>
   \<exists>y rs. arp_node ip (calls cs st) = Some y \<and> an_reserved y \<and> an_claimed y = an_claimed x \<and>
          sent (calls cs st) = sent st @ rs \<and> (\<forall>p\<in>set rs. spa p \<noteq> ip)"
proof (induction cs arbitrary: st x)
  case Nil
  then show ?case by simp
next
  case (Cons hc cs)
  obtain h c where hc: "hc = (h, c)" by (cases hc)
  obtain out st' where c: "call c (st\<lparr>heap := h\<rparr>) = (out, st')"
    by (cases "call c (st\<lparr>heap := h\<rparr>)")
  from Cons.prems have inv: "arp_inv (st\<lparr>heap := h\<rparr>)" by simp
  from call_kept [OF inv c, of ip] Cons.prems(2,3)
  obtain y rs where y: "arp_node ip st' = Some y" "an_reserved y" "an_claimed y = an_claimed x"
    and rs: "sent st' = sent st @ rs" "\<forall>p\<in>set rs. spa p \<noteq> ip"
    by (auto simp: node_kept_def kept_def split: option.splits)
  from call_inv [OF inv c] have inv': "arp_inv st'" and out: "out = Return (- 1) \<or> out = Return 0"
    by simp_all
  from Cons.IH [OF inv' y(1,2)] obtain z rs' where
    z: "arp_node ip (calls cs st') = Some z" "an_reserved z" "an_claimed z = an_claimed y"
      "sent (calls cs st') = sent st' @ rs'" "\<forall>p\<in>set rs'. spa p \<noteq> ip"
    by blast
  have "calls (hc # cs) st = calls cs st'" using hc c out by auto
  with z y rs show ?case by auto
qed

lemma node_shape:
  assumes "tree_inv t" and "node_of t ip = Some x"
  shows "an_plen x = 32" and "an_addr x = be32toh_q ip"
proof -
  from assms(2) obtain m where m: "deref t (ip_path ip) = Some m" "hdr m = x"
    by (auto dest: node_of_deref)
  from assms(1) have wf: "arp_wf 8 t"
    and pre: "an_addr (hdr t) = push_bit (4 * 8) (drop_bit (4 * 8) (be32toh_q ip))"
    by (simp_all add: tree_inv_def)
  from deref_leaf [OF wf _ m(1)] m(2) show "an_plen x = 32" by simp
  from arp_insert_post [OF wf pre, of 0 "[]"] m show "an_addr x = be32toh_q ip"
    by (auto simp: insert_post_def ip_path_eq [symmetric] split: prod.splits)
qed

lemma arp_node_init: "arp_node ip arp_init = None"
  by (auto simp: arp_node_def node_of_def arp_init_def arpn_zero_def ip_path_def)

section \<open>The aggregator: shape of the tree\<close>

subsection \<open>Nibbles and host masks as numbers\<close>

lemma nibble_range:
  fixes A F L S i :: nat
  assumes S: "0 < S" and al: "16 * S dvd A" and r: "A \<le> F" "F \<le> L" "L < A + 16 * S"
  shows "(F div S) mod 16 \<le> (L div S) mod 16"
    and "(F div S) mod 16 \<le> i \<Longrightarrow> F < A + i * S + S"
    and "i \<le> (L div S) mod 16 \<Longrightarrow> A + i * S \<le> L"
proof -
  from al obtain q where A: "A = 16 * S * q" by (auto elim: dvdE)
  define f l where "f = F - A" and "l = L - A"
  have F: "F = f + S * (16 * q)" and L: "L = l + S * (16 * q)" and fl: "f \<le> l" "l < 16 * S"
    using r by (simp_all add: f_def l_def A)
  have ld: "l div S < 16" using fl S by (simp add: less_mult_imp_div_less mult.commute)
  have fd: "f div S \<le> l div S" using fl by (simp add: div_le_mono)
  have Fn: "(F div S) mod 16 = f div S" and Ln: "(L div S) mod 16 = l div S"
    using S ld fd by (simp_all add: F L)
  show "(F div S) mod 16 \<le> (L div S) mod 16" using fd by (simp add: Fn Ln)
  show "F < A + i * S + S" if "(F div S) mod 16 \<le> i"
  proof -
    from that have "f div S < Suc i" by (simp add: Fn)
    then have "f < Suc i * S" using S by (simp add: div_less_iff_less_mult)
    then show ?thesis by (simp add: F A algebra_simps)
  qed
  show "A + i * S \<le> L" if "i \<le> (L div S) mod 16"
  proof -
    from that have "i \<le> l div S" by (simp add: Ln)
    then have "i * S \<le> l" using S by (simp add: less_eq_div_iff_mult_less_eq)
    then show ?thesis by (simp add: L A algebra_simps)
  qed
qed


lemma host_mask:
  assumes "p \<le> 32"
  shows "(ucast (drop_bit p (0xffffffff :: u64)) :: u32) = mask (32 - p)"
proof -
  have m: "(0xffffffff :: u64) = mask 32" by (simp add: mask_eq_exp_minus_1)
  show ?thesis
    unfolding m using assms
    by (intro bit_word_eqI) (auto simp: bit_simps)
qed

lemma pow_le32: "k \<le> 32 \<Longrightarrow> (2::nat) ^ k \<le> 4294967296"
  using power_increasing [of k 32 "2::nat"] by simp

lemma unat_mask32: "k \<le> 32 \<Longrightarrow> unat (mask k :: u32) = 2 ^ k - 1"
proof -
  assume k: "k \<le> 32"
  have "(mask k :: u32) = word_of_nat (mask k)" by (simp add: of_nat_mask_eq)
  then have "unat (mask k :: u32) = mask k mod 2 ^ 32"
    by (simp add: unat_of_nat)
  moreover have "(mask k :: nat) < 2 ^ 32"
    using less_le_trans [OF mask_nat_less_exp [of k] pow_le32 [OF k]] by simp
  ultimately show ?thesis by (simp add: mask_nat_def)
qed

lemma aligned_take_bit:
  assumes "2 ^ k dvd unat (a :: u32)"
  shows "take_bit k a = 0"
proof -
  have "unat (take_bit k a) = take_bit k (unat a)" by (rule unsigned_take_bit_eq)
  also have "\<dots> = unat a mod 2 ^ k" by (rule take_bit_eq_mod)
  also have "\<dots> = 0" using assms by (simp add: mod_eq_0_iff_dvd)
  finally show ?thesis by (simp add: word_unat_eq_iff)
qed

lemma aligned_room:
  assumes "k \<le> 32" and "2 ^ k dvd unat (a :: u32)"
  shows "unat a + 2 ^ k \<le> 2 ^ 32"
proof -
  from assms(2) obtain q where q: "unat a = 2 ^ k * q" by (auto elim: dvdE)
  have e: "(2::nat) ^ 32 = 2 ^ k * 2 ^ (32 - k)"
    using assms(1) by (simp flip: power_add)
  have "unat a < 2 ^ 32" using unsigned_less [of a, where 'a = nat] by simp
  then have "2 ^ k * q < 2 ^ k * 2 ^ (32 - k)" unfolding q e .
  then have "q < 2 ^ (32 - k)" by simp
  then have "Suc q \<le> 2 ^ (32 - k)" by simp
  then have "2 ^ k * Suc q \<le> 2 ^ k * 2 ^ (32 - k)" by (rule mult_le_mono2)
  then show ?thesis unfolding e by (simp add: q)
qed

lemma unat_or_mask:
  assumes "k \<le> 32" and "2 ^ k dvd unat (a :: u32)"
  shows "unat (a OR mask k) = unat a + 2 ^ k - 1"
proof -
  have "a AND mask k = 0"
    using aligned_take_bit [OF assms(2)] by (simp add: take_bit_eq_mask)
  then have "a OR mask k = a + mask k"
    by (simp add: disjunctive_add_eq_or)
  moreover have "unat a + unat (mask k :: u32) < 2 ^ 32"
    using aligned_room [OF assms] by (simp add: unat_mask32 assms(1))
  ultimately show ?thesis
    by (simp add: unat_add_lem [THEN iffD1] unat_mask32 assms(1))
qed

lemma unat_or_child:
  assumes "r < 8" and "2 ^ (4 * Suc r) dvd unat (a :: u32)" and "i < 16"
  shows "unat (a OR push_bit (4 * r) (word_of_nat i)) = unat a + i * 2 ^ (4 * r)"
proof -
  let ?p = "push_bit (4 * r) (word_of_nat i) :: u32"
  have ta: "take_bit (4 * Suc r) a = 0" by (rule aligned_take_bit [OF assms(2)])
  have i: "(word_of_nat i :: u32) = take_bit 4 (word_of_nat i)"
    using assms(3) by (simp only: take_bit_of_nat) (simp add: take_bit_nat_eq_self)
  have "a AND ?p = 0"
  proof (rule bit_word_eqI)
    fix n assume "n < LENGTH(32)"
    have "\<not> bit a n" if "n < 4 * Suc r"
    proof -
      have "bit (take_bit (4 * Suc r) a) n = bit a n"
        using that by (simp add: bit_take_bit_iff)
      then show ?thesis unfolding ta by simp
    qed
    moreover have "n < 4 * Suc r" if "bit ?p n"
      using that by (subst (asm) i) (auto simp: bit_simps)
    ultimately show "bit (a AND ?p) n = bit (0::u32) n"
      by (auto simp: bit_and_iff)
  qed
  then have or: "a OR ?p = a + ?p"
    by (simp add: disjunctive_add_eq_or)
  have lt: "i * 2 ^ (4 * r) < 2 ^ (4 * Suc r)"
    using assms(3) by (simp add: power_add)
  have le: "(2::nat) ^ (4 * Suc r) \<le> 2 ^ 32"
    using assms(1) by (intro power_increasing) simp_all
  have lt32: "i * 2 ^ (4 * r) < 2 ^ 32" using lt le by simp
  have "unat ?p = take_bit 32 (push_bit (4 * r) (unat (word_of_nat i :: u32)))"
    by (simp only: unsigned_push_bit_eq) simp
  also have "unat (word_of_nat i :: u32) = i"
    using assms(3) by (simp add: unat_of_nat)
  also have "push_bit (4 * r) i = i * 2 ^ (4 * r)" by (rule push_bit_eq_mult)
  also have "take_bit 32 (i * 2 ^ (4 * r)) = i * 2 ^ (4 * r)"
    using lt32 by (rule take_bit_nat_eq_self)
  finally have up: "unat ?p = i * 2 ^ (4 * r)" .
  have "unat a + 2 ^ (4 * Suc r) \<le> 2 ^ 32"
    using assms(1) by (intro aligned_room [OF _ assms(2)]) simp
  then have "unat a + unat ?p < 2 ^ 32" using lt by (simp add: up)
  then show ?thesis
    by (simp add: or unat_add_lem [THEN iffD1] up)
qed

lemma unat_nibble:
  "unat (drop_bit k (x :: u32) mod 2 ^ ip4a_bits) = (unat x div 2 ^ k) mod 16"
proof -
  have "unat (drop_bit k x mod 2 ^ ip4a_bits) = unat (drop_bit k x) mod 16"
    by (simp add: ip4a_bits_def unat_mod)
  also have "unat (drop_bit k x) = drop_bit k (unat x)" by (rule unat_drop_bit_eq)
  also have "\<dots> = unat x div 2 ^ k" by (rule drop_bit_eq_div)
  finally show ?thesis .
qed

lemma full_coverage:
  assumes k: "k \<le> 32"
  shows "(ucast (mask k :: u32) :: u64) + 1 = 2 ^ k"
proof -
  have "(ucast (mask k :: u32) :: u64) = mask k"
    using k by (simp add: ucast_mask_eq min_def)
  then show ?thesis by (simp add: mask_eq_exp_minus_1)
qed

subsection \<open>The shape \<^verbatim>\<open>ip4a_insert\<close> keeps\<close>

lemma ip4a_wf_plen: "ip4a_wf r n \<Longrightarrow> unat (n_plen (nf n)) + 4 * r = 32"
  by (cases r) simp_all

lemma ip4a_wf_length: "ip4a_wf r n \<Longrightarrow> length (n_sub n) = 16"
  by (cases r) simp_all

lemma ip4a_wf_aligned: "ip4a_wf r n \<Longrightarrow> 2 ^ (4 * r) dvd unat (n_addr (nf n))"
  by (cases r) simp_all

lemma ip4a_wf_child:
  "ip4a_wf (Suc r) n \<Longrightarrow> i < 16 \<Longrightarrow> n_sub n ! i = Some c \<Longrightarrow>
   unat (n_addr (nf c)) = unat (n_addr (nf n)) + i * 2 ^ (4 * r) \<and> ip4a_wf r c \<and> ip4a_full r c"
  by (auto split: option.splits)

lemma ip4a_wf_leaf_child: "ip4a_wf r n \<Longrightarrow> n_leaf (nf n) \<Longrightarrow> i < 16 \<Longrightarrow> n_sub n ! i = None"
  by (cases r) simp_all

lemma ip4a_wf_aggregate:
  assumes "ip4a_wf r n"
  shows "ip4a_wf r (set_fields (\<lambda>f. f\<lparr>n_leaf := True, n_coverage := c\<rparr>) (ip4a_delete n))"
  using assms by (cases r) (simp_all add: set_fields_def ip4a_delete_def ip4a_bits_def)

lemma ip4a_wf_set_child:
  assumes "ip4a_wf (Suc r) n" "i < 16" "ip4a_wf r c" "ip4a_full r c"
    and "unat (n_addr (nf c)) = unat (n_addr (nf n)) + i * 2 ^ (4 * r)"
    and "\<not> n_leaf (f (nf n))" "n_addr (f (nf n)) = n_addr (nf n)" "n_plen (f (nf n)) = n_plen (nf n)"
  shows "ip4a_wf (Suc r) (set_fields f (set_child i c n))"
  using assms by (auto simp: set_fields_def set_child_def nth_list_update split: option.splits)

lemma ip4a_wf_fresh:
  assumes "ip4a_wf (Suc r) n" "r < 8" "i < 16"
  defines "sn \<equiv> Ip4a \<lparr>n_addr = n_addr (nf n) OR push_bit (32 - (unat (n_plen (nf n)) + ip4a_bits)) (word_of_nat i),
                       n_plen = word_of_nat (unat (n_plen (nf n)) + ip4a_bits), n_leaf = True, n_coverage = 0\<rparr>
                 (replicate 16 None)"
  shows "ip4a_wf r sn" and "unat (n_addr (nf sn)) = unat (n_addr (nf n)) + i * 2 ^ (4 * r)"
proof -
  have p: "unat (n_plen (nf n)) + ip4a_bits = 32 - 4 * r" "32 - (32 - 4 * r) = 4 * r"
    using ip4a_wf_plen [OF assms(1)] assms(2) by (simp_all add: ip4a_bits_def)
  have al: "2 ^ (4 * Suc r) dvd unat (n_addr (nf n))" using assms(1) by simp
  show a: "unat (n_addr (nf sn)) = unat (n_addr (nf n)) + i * 2 ^ (4 * r)"
    unfolding sn_def p using unat_or_child [OF assms(2) al assms(3)] by simp
  have "2 ^ (4 * r) dvd unat (n_addr (nf n))"
    using al by (auto simp: power_add elim: dvd_mult_right)
  then have "2 ^ (4 * r) dvd unat (n_addr (nf sn))" unfolding a by simp
  moreover have "unat (word_of_nat k :: u8) = k mod 256" for k
    by (simp add: unat_of_nat)
  then have "unat (n_plen (nf sn)) + 4 * r = 32"
    unfolding sn_def p using assms(2) by (simp del: of_nat_diff)
  ultimately show "ip4a_wf r sn"
    by (cases r) (simp_all add: sn_def)
qed

declare ip4a_wf.simps [simp del]

lemma nf_set_fields: "nf (set_fields g n) = g (nf n)"
  by (simp add: set_fields_def)

lemma nf_set_child: "nf (set_child i c n) = nf n"
  by (simp add: set_child_def)

lemma ip4a_loop_inv:
  fixes r :: nat
  assumes IH: "\<And>c a b h c' h'. ip4a_wf r c \<Longrightarrow> unat a \<le> unat b \<Longrightarrow>
       unat a < unat (n_addr (nf c)) + 2 ^ (4 * r) \<Longrightarrow> unat (n_addr (nf c)) \<le> unat b \<Longrightarrow>
       ip4a_insert c a b h = Some (0, c', h') \<Longrightarrow>
       ip4a_wf r c' \<and> n_addr (nf c') = n_addr (nf c) \<and> ip4a_full r c'"
    and r: "r < 8"
    and range: "unat F \<le> unat L"
    and lsub: "lsub = (unat L div 2 ^ (4 * r)) mod 16"
  shows "ip4a_wf (Suc r) n \<Longrightarrow> unat (n_addr (nf n)) \<le> unat F \<Longrightarrow>
     unat L < unat (n_addr (nf n)) + 16 * 2 ^ (4 * r) \<Longrightarrow>
     (unat F div 2 ^ (4 * r)) mod 16 \<le> i \<Longrightarrow>
     ip4a_insert_loop n F L i lsub h = Some (0, n', h') \<Longrightarrow>
     ip4a_wf (Suc r) n' \<and> n_addr (nf n') = n_addr (nf n) \<and>
     (i \<le> lsub \<longrightarrow> \<not> n_leaf (nf n')) \<and> (\<not> n_leaf (nf n) \<longrightarrow> \<not> n_leaf (nf n'))"
proof (induction "Suc lsub - i" arbitrary: n i h)
  case 0
  then have i: "\<not> i \<le> lsub" by simp
  then have "n' = n" using 0(6) by (simp add: ip4a_insert_loop.simps [of n F L i lsub h])
  then show ?case using 0(2) i by blast
next
  case (Suc k)
  let ?A = "unat (n_addr (nf n))" and ?S = "2 ^ (4 * r) :: nat"
  have i: "i \<le> lsub" "i < 16" using Suc.hyps(2) lsub by auto
  have al: "16 * ?S dvd ?A" using ip4a_wf_aligned [OF Suc.prems(1)] by (simp add: power_add)
  note nr = nibble_range [of ?S ?A "unat F" "unat L", OF _ al Suc.prems(2) range Suc.prems(3)]
  have lo: "unat F < ?A + i * ?S + ?S" using nr(2) Suc.prems(4) by simp
  have hi: "?A + i * ?S \<le> unat L" using nr(3) i(1) lsub by simp
  have len: "i < length (n_sub n)" using ip4a_wf_length [OF Suc.prems(1)] i by simp
  have step: ?case
    if c: "ip4a_wf r c" "unat (n_addr (nf c)) = ?A + i * ?S"
      and ins: "ip4a_insert c F L h0 = Some (ret, c', h1)"
      and g: "\<not> n_leaf (g (nf n))" "n_addr (g (nf n)) = n_addr (nf n)"
        "n_plen (g (nf n)) = n_plen (nf n)"
      and res: "(if ret \<noteq> 0 then Some (ret, set_fields g (set_child i c' n), h1)
                 else ip4a_insert_loop (set_fields g (set_child i c' n)) F L (Suc i) lsub h1)
                = Some (0, n', h')"
    for c c' g ret h0 h1
  proof -
    let ?n1 = "set_fields g (set_child i c' n)"
    have ret: "ret = 0" using res by (cases "ret = 0") simp_all
    have c': "ip4a_wf r c'" "n_addr (nf c') = n_addr (nf c)" "ip4a_full r c'"
      using IH [OF c(1) range _ _ ins [unfolded ret]] lo hi c(2) by simp_all
    have wf1: "ip4a_wf (Suc r) ?n1"
      using Suc.prems(1) i(2) c'(1,3) _ g
      by (rule ip4a_wf_set_child) (simp add: c'(2) c(2))
    have a1: "n_addr (nf ?n1) = n_addr (nf n)" "\<not> n_leaf (nf ?n1)"
      by (simp_all add: nf_set_fields nf_set_child g)
    have "k = Suc lsub - Suc i" using Suc.hyps(2) by simp
    moreover have "(unat F div ?S) mod 16 \<le> Suc i" using Suc.prems(4) by simp
    moreover have "ip4a_insert_loop ?n1 F L (Suc i) lsub h1 = Some (0, n', h')"
      using res ret by simp
    ultimately have "ip4a_wf (Suc r) n' \<and> n_addr (nf n') = n_addr (nf ?n1) \<and>
        (Suc i \<le> lsub \<longrightarrow> \<not> n_leaf (nf n')) \<and> (\<not> n_leaf (nf ?n1) \<longrightarrow> \<not> n_leaf (nf n'))"
      using Suc.prems(2,3) by (intro Suc.hyps(1) wf1) (simp_all only: a1)
    then show ?thesis using a1 by simp
  qed
  note loop = Suc.prems(5) [unfolded ip4a_insert_loop.simps [of n F L i lsub h]]
  show ?case
  proof (cases "n_sub n ! i")
    case (Some sn)
    note ch = ip4a_wf_child [OF Suc.prems(1) i(2) Some]
    have nl: "\<not> n_leaf (nf n)"
      using ip4a_wf_leaf_child [OF Suc.prems(1) _ i(2)] Some by auto
    from loop obtain ret c' h1 where ins: "ip4a_insert sn F L h = Some (ret, c', h1)"
      using i len Some by (cases "ip4a_insert sn F L h") (auto simp: Let_def)
    show ?thesis
    proof (rule step [OF _ _ ins])
      show "ip4a_wf r sn" "unat (n_addr (nf sn)) = ?A + i * ?S" using ch by simp_all
      show "(if ret \<noteq> 0 then Some (ret, set_fields (\<lambda>f. f\<lparr>n_coverage := n_coverage f + n_coverage (nf c')\<rparr>) (set_child i c' n), h1)
          else ip4a_insert_loop (set_fields (\<lambda>f. f\<lparr>n_coverage := n_coverage f + n_coverage (nf c')\<rparr>) (set_child i c' n)) F L (Suc i) lsub h1)
          = Some (0, n', h')"
        using loop i len Some ins by (simp add: Let_def)
    qed (simp_all add: nl)
  next
    case None
    obtain b h0 where cal: "calloc h = (b, h0)" by (cases "calloc h")
    have b: b using loop i len None cal by (cases b) (simp_all add: Let_def)
    let ?sn = "Ip4a \<lparr>n_addr = n_addr (nf n) OR push_bit (32 - (unat (n_plen (nf n)) + ip4a_bits)) (word_of_nat i),
                       n_plen = word_of_nat (unat (n_plen (nf n)) + ip4a_bits), n_leaf = True, n_coverage = 0\<rparr>
                 (replicate 16 None)"
    note fr = ip4a_wf_fresh [OF Suc.prems(1) r i(2)]
    have sp: "\<not> 32 < unat (n_plen (nf n)) + ip4a_bits"
      using ip4a_wf_plen [OF Suc.prems(1)] by (simp add: ip4a_bits_def)
    from loop obtain ret c' h1 where ins: "ip4a_insert ?sn F L h0 = Some (ret, c', h1)"
      using i len None cal b sp by (cases "ip4a_insert ?sn F L h0") (auto simp: Let_def)
    show ?thesis
    proof (rule step [OF _ _ ins])
      show "ip4a_wf r ?sn" "unat (n_addr (nf ?sn)) = ?A + i * ?S" using fr by simp_all
      show "(if ret \<noteq> 0 then Some (ret, set_fields (\<lambda>f. f\<lparr>n_leaf := False, n_coverage := n_coverage f + n_coverage (nf c')\<rparr>) (set_child i c' n), h1)
          else ip4a_insert_loop (set_fields (\<lambda>f. f\<lparr>n_leaf := False, n_coverage := n_coverage f + n_coverage (nf c')\<rparr>) (set_child i c' n)) F L (Suc i) lsub h1)
          = Some (0, n', h')"
        using loop i len None cal b sp ins by (simp add: Let_def)
    qed simp_all
  qed
qed

lemma ip4a_terminal_ok:
  assumes "ip4a_wf r n"
  defines "t \<equiv> set_fields (\<lambda>f. f\<lparr>n_leaf := True, n_coverage := 2 ^ (4 * r)\<rparr>) (ip4a_delete n)"
  shows "ip4a_wf r t \<and> n_addr (nf t) = n_addr (nf n) \<and> ip4a_full r t"
  using ip4a_wf_aggregate [OF assms(1)]
  by (simp add: t_def ip4a_full_def nf_set_fields ip4a_delete_def)

lemma ip4a_wf_mask:
  assumes "ip4a_wf r n" "r \<le> 8"
  shows "\<not> 64 \<le> unat (n_plen (nf n))"
    and "(ucast (drop_bit (unat (n_plen (nf n))) (0xffffffff :: u64)) :: u32) = mask (4 * r)"
    and "(ucast (mask (4 * r) :: u32) :: u64) + 1 = 2 ^ (4 * r)"
    and "unat (n_addr (nf n) OR mask (4 * r)) = unat (n_addr (nf n)) + 2 ^ (4 * r) - 1"
proof -
  have p: "unat (n_plen (nf n)) = 32 - 4 * r" "32 - (32 - 4 * r) = 4 * r" "4 * r \<le> 32"
    using ip4a_wf_plen [OF assms(1)] assms(2) by simp_all
  show "\<not> 64 \<le> unat (n_plen (nf n))" using p by simp
  show "(ucast (drop_bit (unat (n_plen (nf n))) (0xffffffff :: u64)) :: u32) = mask (4 * r)"
    using host_mask [of "32 - 4 * r"] p by simp
  show "(ucast (mask (4 * r) :: u32) :: u64) + 1 = 2 ^ (4 * r)"
    using p(3) by (rule full_coverage)
  show "unat (n_addr (nf n) OR mask (4 * r)) = unat (n_addr (nf n)) + 2 ^ (4 * r) - 1"
    using p(3) ip4a_wf_aligned [OF assms(1)] by (rule unat_or_mask)
qed

lemma ip4a_insert_inv:
  "r \<le> 8 \<Longrightarrow> ip4a_wf r n \<Longrightarrow> unat a \<le> unat b \<Longrightarrow>
   unat a < unat (n_addr (nf n)) + 2 ^ (4 * r) \<Longrightarrow> unat (n_addr (nf n)) \<le> unat b \<Longrightarrow>
   ip4a_insert n a b h = Some (0, n', h') \<Longrightarrow>
   ip4a_wf r n' \<and> n_addr (nf n') = n_addr (nf n) \<and> ip4a_full r n'"
proof (induction r arbitrary: n a b h n' h')
  case 0
  have p: "unat (n_plen (nf n)) = 32" using ip4a_wf_plen [OF 0(2)] by simp
  have "n' = set_fields (\<lambda>f. f\<lparr>n_leaf := True, n_coverage := 2 ^ (4 * 0)\<rparr>) (ip4a_delete n)"
    using 0(6) ip4a_wf_mask(2,3) [OF 0(2,1)]
    by (simp add: ip4a_insert.simps [of n a b h] p ip4a_minplen_def ip4a_maxplen_def ip4a_bits_def)
  then show ?case using ip4a_terminal_ok [OF 0(2)] by simp
next
  case (Suc r)
  let ?A = "n_addr (nf n)" and ?M = "mask (4 * Suc r) :: u32" and ?S = "2 ^ (4 * r) :: nat"
  define F where "F = (if a < ?A then ?A else a)"
  define L where "L = (if b > (?A OR ?M) then ?A OR ?M else b)"
  note m = ip4a_wf_mask [OF Suc.prems(2,1)]
  have r: "r < 8" using Suc.prems(1) by simp
  have p: "unat (n_plen (nf n)) = 28 - 4 * r" "32 - (28 - 4 * r + 4) = 4 * r"
    using ip4a_wf_plen [OF Suc.prems(2)] r by simp_all
  have S16: "(2::nat) ^ (4 * Suc r) = 16 * ?S" by (simp add: power_add)
  define K where "K = 16 * ?S"
  have K: "0 < K" by (simp add: K_def)
  have "unat ?A \<le> unat F \<and> unat F \<le> unat L \<and> unat L < unat ?A + K"
    using Suc.prems(3) Suc.prems(4) [unfolded S16 K_def [symmetric]] Suc.prems(5)
      m(4) [unfolded S16 K_def [symmetric]] K
    by (auto simp: F_def L_def word_less_nat_alt)
  then have F: "unat ?A \<le> unat F" "unat F \<le> unat L" and L: "unat L < unat ?A + 16 * ?S"
    by (simp_all add: K_def)
  have al: "16 * ?S dvd unat ?A" using ip4a_wf_aligned [OF Suc.prems(2)] by (simp add: power_add)
  note nr = nibble_range(1) [of ?S "unat ?A" "unat F" "unat L", OF _ al F L]
  define T where "T x = set_fields (\<lambda>f. f\<lparr>n_leaf := True, n_coverage := 2 ^ (4 * Suc r)\<rparr>) (ip4a_delete x)" for x
  define fsub where "fsub = (unat F div ?S) mod 16"
  define lsub where "lsub = (unat L div ?S) mod 16"
  have ins: "ip4a_insert n a b h =
      (if ip4a_minplen \<le> unat (n_plen (nf n)) \<and> F = ?A \<and> L = (?A OR ?M) then Some (0, T n, h)
       else case ip4a_insert_loop n F L fsub lsub h of
           None \<Rightarrow> None
         | Some (ret, n1, h1) \<Rightarrow>
             if ret \<noteq> 0 then Some (ret, n1, h1)
             else if ip4a_minplen \<le> unat (n_plen (nf n1)) \<and> (?M + 1 :: u32) > 0 \<and>
                     n_coverage (nf n1) \<ge> ucast (?M + 1 :: u32)
                  then Some (0, T n1, h1) else Some (0, n1, h1))"
    unfolding ip4a_insert.simps [of n a b h] m(2) Let_def F_def [symmetric] L_def [symmetric] m(3)
      T_def fsub_def lsub_def unat_nibble
    using m(1) r by (auto simp add: p ip4a_maxplen_def ip4a_bits_def)
  show ?case
  proof (cases "ip4a_minplen \<le> unat (n_plen (nf n)) \<and> F = ?A \<and> L = (?A OR ?M)")
    case True
    then have "n' = T n" using Suc.prems(6) ins by simp
    then show ?thesis using ip4a_terminal_ok [OF Suc.prems(2)] by (simp add: T_def)
  next
    case False
    have res: "(case ip4a_insert_loop n F L fsub lsub h of
           None \<Rightarrow> None
         | Some (ret, n1, h1) \<Rightarrow>
             if ret \<noteq> 0 then Some (ret, n1, h1)
             else if ip4a_minplen \<le> unat (n_plen (nf n1)) \<and> (?M + 1 :: u32) > 0 \<and>
                     n_coverage (nf n1) \<ge> ucast (?M + 1 :: u32)
                  then Some (0, T n1, h1) else Some (0, n1, h1)) = Some (0, n', h')"
      using Suc.prems(6) unfolding ins if_not_P [OF False] .
    then obtain ret n1 h1 where loop: "ip4a_insert_loop n F L fsub lsub h = Some (ret, n1, h1)"
      by (cases "ip4a_insert_loop n F L fsub lsub h") auto
    note res' = res [unfolded loop option.case prod.case]
    have ret: "ret = 0" using res' by (cases "ret = 0") simp_all
    have n1: "ip4a_wf (Suc r) n1" "n_addr (nf n1) = ?A" "\<not> n_leaf (nf n1)"
      using ip4a_loop_inv [OF Suc.IH [OF less_imp_le [OF r]] r F(2) lsub_def Suc.prems(2) F(1) L _
          loop [unfolded ret]] nr
      by (simp_all add: fsub_def lsub_def)
    have "n' = T n1 \<or> n' = n1"
      using res' ret by (simp split: if_splits)
    then show ?thesis
    proof
      assume "n' = T n1"
      then show ?thesis using ip4a_terminal_ok [OF n1(1)] n1(2) by (simp add: T_def)
    next
      assume "n' = n1"
      then show ?thesis using n1 by (simp add: ip4a_full_def)
    qed
  qed
qed

lemma ip4a_new_Some: "ip4a_new h0 = (Some root, h1) \<Longrightarrow> root = ip4a_empty"
  by (cases h0; cases "hd h0") (auto simp: ip4a_new_def calloc_def ip4a_empty_def split: if_splits)

lemma ip4a_wf_empty: "ip4a_wf 8 ip4a_empty" "n_addr (nf ip4a_empty) = 0"
proof -
  have "ip4a_wf (Suc 7) ip4a_empty"
    unfolding ip4a_wf.simps
    by (simp add: ip4a_empty_def ip4a_zero_def set_fields_def)
  then show "ip4a_wf 8 ip4a_empty" by simp
  show "n_addr (nf ip4a_empty) = 0"
    by (simp add: ip4a_empty_def ip4a_zero_def set_fields_def)
qed

lemma ip4a_inserts_inv:
  "ip4a_wf 8 n \<Longrightarrow> n_addr (nf n) = 0 \<Longrightarrow> \<forall>(a, b, h) \<in> set rs. a \<le> b \<Longrightarrow>
   ip4a_inserts rs n = Some t \<Longrightarrow>
   ip4a_wf 8 t \<and> n_addr (nf t) = 0 \<and> (rs \<noteq> [] \<or> ip4a_full 8 n \<longrightarrow> ip4a_full 8 t)"
proof (induction rs arbitrary: n)
  case Nil
  then show ?case by simp
next
  case (Cons x rs)
  obtain a b h where x: "x = (a, b, h)" by (cases x)
  from Cons.prems(4) obtain n1 h1 where
    ins: "ip4a_insert n a b h = Some (0, n1, h1)" and rest: "ip4a_inserts rs n1 = Some t"
    unfolding x by (auto split: option.splits if_splits)
  have ab: "unat a \<le> unat b" using Cons.prems(3) by (simp add: x word_le_nat_alt)
  have "unat a < 2 ^ 32" using unsigned_less [of a, where 'a = nat] by simp
  then have n1: "ip4a_wf 8 n1" "n_addr (nf n1) = 0" "ip4a_full 8 n1"
    using ip4a_insert_inv [OF _ Cons.prems(1) ab _ _ ins] Cons.prems(2) by simp_all
  show ?case
    using Cons.IH [OF n1(1,2) _ rest] Cons.prems(3) n1(3) by simp
qed

lemma unat_pow64:
  assumes "k < 64"
  shows "unat (2 ^ k :: u64) = 2 ^ k"
proof -
  have "(2 ^ k :: u64) = word_of_nat (2 ^ k)" by simp
  then have "unat (2 ^ k :: u64) = 2 ^ k mod 2 ^ 64"
    by (simp only: unat_of_nat) simp
  moreover have "(2::nat) ^ k < 2 ^ 64"
    using assms by (intro power_strict_increasing) simp_all
  ultimately show ?thesis by simp
qed

lemma ip4a_nodes_leaf_full:
  "r \<le> 8 \<Longrightarrow> ip4a_wf r n \<Longrightarrow> ip4a_full r n \<Longrightarrow> f \<in> set (ip4a_nodes n) \<Longrightarrow> n_leaf f \<Longrightarrow>
   unat (n_coverage f) = 2 ^ (32 - unat (n_plen f))"
proof (induction r arbitrary: n)
  case 0
  obtain g subs where n: "n = Ip4a g subs" by (cases n)
  have "subs = replicate 16 None" using 0(2) by (simp add: n ip4a_wf.simps)
  then have "f = g" using 0(4) by (simp add: n)
  then show ?case using 0(2,3,5) by (simp add: n ip4a_full_def ip4a_wf.simps)
next
  case (Suc r)
  obtain g subs where n: "n = Ip4a g subs" by (cases n)
  have u: "unat (2 ^ (4 * Suc r) :: u64) = 2 ^ (4 * Suc r)"
    using Suc.prems(1) by (intro unat_pow64) simp
  have "f = g \<or> (\<exists>c. Some c \<in> set subs \<and> f \<in> set (ip4a_nodes c))"
    using Suc.prems(4) by (auto simp: n split: option.splits)
  then consider "f = g" | i c where "i < length subs" "subs ! i = Some c" "f \<in> set (ip4a_nodes c)"
    by (metis in_set_conv_nth)
  then show ?case
  proof cases
    case 1
    then show ?thesis
      using ip4a_wf_plen [OF Suc.prems(2)] Suc.prems(3,5) u by (simp add: n ip4a_full_def)
  next
    case 2
    have "i < 16" using 2(1) ip4a_wf_length [OF Suc.prems(2)] by (simp add: n)
    then have "ip4a_wf r c \<and> ip4a_full r c"
      using ip4a_wf_child [OF Suc.prems(2), of i c] 2(2) by (simp add: n)
    then show ?thesis
      using Suc.IH [of c] Suc.prems(1,5) 2(3) by simp
  qed
qed

subsection \<open>\<^verbatim>\<open>ip4a_lookup\<close> finds what \<^verbatim>\<open>ip4a_insert\<close> marked\<close>

lemma nibble_inside:
  fixes A S x :: nat
  assumes S: "0 < S" and al: "16 * S dvd A" and r: "A \<le> x" "x < A + 16 * S"
  shows "A + ((x div S) mod 16) * S \<le> x" and "x < A + ((x div S) mod 16) * S + S"
proof -
  from al obtain q where q: "A = 16 * S * q" by (auto elim: dvdE)
  define y where "y = x - A"
  have x: "x = y + 16 * q * S" and y: "y < 16 * S" using r by (simp_all add: y_def q)
  have "x div S = y div S + 16 * q" using S by (simp add: x)
  moreover have "y div S < 16" using y S by (simp add: less_mult_imp_div_less mult.commute)
  ultimately have n: "(x div S) mod 16 = y div S" by simp
  define d where "d = y div S"
  have "d * S \<le> y" by (simp add: d_def)
  moreover have "y < d * S + S"
    unfolding d_def using S
    by (metis div_mult_mod_eq add_less_cancel_left mod_less_divisor mult.commute)
  moreover have "x = A + y" using r by (simp add: y_def)
  ultimately show "A + ((x div S) mod 16) * S \<le> x" and "x < A + ((x div S) mod 16) * S + S"
    unfolding n d_def [symmetric] by simp_all
qed

lemma ip4a_lookup_marked:
  "r \<le> 8 \<Longrightarrow> ip4a_wf r n \<Longrightarrow> ip4a_inside r n x \<Longrightarrow> ip4a_marked r n x \<Longrightarrow>
   ip4a_lookup n x = Some 1"
proof (induction r arbitrary: n)
  case 0
  note m = ip4a_wf_mask [OF 0(2,1)]
  have "n_coverage (nf n) = ucast (mask (4 * 0) :: u32) + 1"
    using 0(4) by simp
  moreover have "x = n_addr (nf n)"
    using 0(3) by (simp add: ip4a_inside_def word_unat_eq_iff)
  ultimately show ?case
    unfolding ip4a_lookup.simps [of n x] m(2) Let_def using m(1) by simp
next
  case (Suc r)
  let ?A = "unat (n_addr (nf n))" and ?S = "2 ^ (4 * r) :: nat"
  let ?i = "(unat x div ?S) mod 16"
  note m = ip4a_wf_mask [OF Suc.prems(2,1)]
  have r: "r < 8" using Suc.prems(1) by simp
  have p: "unat (n_plen (nf n)) = 28 - 4 * r" "32 - (28 - 4 * r) - 4 = 4 * r"
    using ip4a_wf_plen [OF Suc.prems(2)] r by simp_all
  have S16: "(2::nat) ^ (4 * Suc r) = 16 * ?S" by (simp add: power_add)
  have ins: "?A \<le> unat x" "unat x < ?A + 16 * ?S"
    using Suc.prems(3) unfolding ip4a_inside_def S16 by simp_all
  have within: "x \<ge> n_addr (nf n) \<and> x \<le> (n_addr (nf n) OR mask (4 * Suc r))"
    using ins m(4) [unfolded S16] by (simp add: word_le_nat_alt)
  show ?case
  proof (cases "n_coverage (nf n) = 2 ^ (4 * Suc r)")
    case True
    then show ?thesis
      using m(1) within unfolding ip4a_lookup.simps [of n x] m(2) Let_def m(3) by simp
  next
    case False
    then obtain c where c: "n_sub n ! ?i = Some c" "ip4a_marked r c x"
      using Suc.prems(4) by (auto simp: ip4a_nib_def split: option.splits)
    have al: "16 * ?S dvd ?A" using ip4a_wf_aligned [OF Suc.prems(2)] by (simp add: power_add)
    have i: "?i < 16" by simp
    note ch = ip4a_wf_child [OF Suc.prems(2) i c(1)]
    have "ip4a_inside r c x"
      using nibble_inside [of ?S ?A "unat x", OF _ al ins] ch by (simp add: ip4a_inside_def)
    then have "ip4a_lookup c x = Some 1"
      using Suc.IH [of c] r ch c(2) by simp
    moreover have "28 - (28 - 4 * r) = 4 * r" using r by simp
    then have "ip4a_lookup n x = ip4a_lookup c x"
      unfolding ip4a_lookup.simps [of n x] m(2) Let_def m(3)
      using m(1) within False c(1) ip4a_wf_length [OF Suc.prems(2)] r
      by (auto simp add: ip4a_bits_def p unat_nibble [unfolded ip4a_bits_def, simplified])
    ultimately show ?thesis by simp
  qed
qed

lemma ip4a_insert_0:
  assumes "ip4a_wf 0 n"
  shows "ip4a_insert n a b h = Some (0, ip4a_leaf 0 n, h)"
proof -
  have p: "unat (n_plen (nf n)) = 32" using ip4a_wf_plen [OF assms] by simp
  show ?thesis
    using ip4a_wf_mask(2,3) [OF assms, simplified]
    by (simp add: ip4a_insert.simps [of n a b h] p ip4a_minplen_def ip4a_maxplen_def ip4a_bits_def
        ip4a_leaf_def)
qed

lemma ip4a_insert_Suc:
  assumes "ip4a_wf (Suc r) n" "r < 8"
  shows "ip4a_insert n a b h =
      (if r < 6 \<and> ip4a_clip_first n a = n_addr (nf n) \<and>
          ip4a_clip_last (Suc r) n b = (n_addr (nf n) OR mask (4 * Suc r))
       then Some (0, ip4a_leaf (Suc r) n, h)
       else case ip4a_insert_loop n (ip4a_clip_first n a) (ip4a_clip_last (Suc r) n b)
                   (ip4a_nib r (ip4a_clip_first n a)) (ip4a_nib r (ip4a_clip_last (Suc r) n b)) h of
           None \<Rightarrow> None
         | Some (ret, n1, h1) \<Rightarrow>
             if ret \<noteq> 0 then Some (ret, n1, h1)
             else if ip4a_minplen \<le> unat (n_plen (nf n1)) \<and> (mask (4 * Suc r) + 1 :: u32) > 0 \<and>
                     n_coverage (nf n1) \<ge> ucast (mask (4 * Suc r) + 1 :: u32)
                  then Some (0, ip4a_leaf (Suc r) n1, h1) else Some (0, n1, h1))"
proof -
  note m = ip4a_wf_mask [OF assms(1) Suc_leI [OF assms(2)]]
  have p: "unat (n_plen (nf n)) = 28 - 4 * r" "32 - (28 - 4 * r + 4) = 4 * r"
    using ip4a_wf_plen [OF assms(1)] assms(2) by simp_all
  have q: "ip4a_minplen \<le> 28 - 4 * r \<longleftrightarrow> r < 6" by (auto simp: ip4a_minplen_def)
  show ?thesis
    unfolding ip4a_insert.simps [of n a b h] m(2) Let_def m(3) ip4a_clip_first_def [symmetric]
      ip4a_clip_last_def [symmetric] ip4a_leaf_def [symmetric] ip4a_nib_def unat_nibble
    using m(1) assms(2) by (auto simp add: p q ip4a_maxplen_def ip4a_bits_def)
qed

lemma ip4a_clip:
  assumes "ip4a_wf r n" "r \<le> 8" "unat a \<le> unat b"
    and "unat a < unat (n_addr (nf n)) + 2 ^ (4 * r)" "unat (n_addr (nf n)) \<le> unat b"
  shows "unat (n_addr (nf n)) \<le> unat (ip4a_clip_first n a)"
    and "unat (ip4a_clip_first n a) \<le> unat (ip4a_clip_last r n b)"
    and "unat (ip4a_clip_last r n b) < unat (n_addr (nf n)) + 2 ^ (4 * r)"
    and "ip4a_inside r n x \<Longrightarrow>
         unat (ip4a_clip_first n a) \<le> unat x \<and> unat x \<le> unat (ip4a_clip_last r n b) \<longleftrightarrow>
         unat a \<le> unat x \<and> unat x \<le> unat b"
proof -
  define K :: nat where "K = 2 ^ (4 * r)"
  have K: "0 < K" by (simp add: K_def)
  note m = ip4a_wf_mask(4) [OF assms(1,2), folded K_def]
  show "unat (n_addr (nf n)) \<le> unat (ip4a_clip_first n a)"
    and "unat (ip4a_clip_first n a) \<le> unat (ip4a_clip_last r n b)"
    and "unat (ip4a_clip_last r n b) < unat (n_addr (nf n)) + 2 ^ (4 * r)"
    using assms(3) assms(4) [folded K_def] assms(5) m K unfolding K_def [symmetric]
    by (auto simp: ip4a_clip_first_def ip4a_clip_last_def word_less_nat_alt)
  assume "ip4a_inside r n x"
  then show "unat (ip4a_clip_first n a) \<le> unat x \<and> unat x \<le> unat (ip4a_clip_last r n b) \<longleftrightarrow>
         unat a \<le> unat x \<and> unat x \<le> unat b"
    using assms(3) assms(4) [folded K_def] assms(5) m K unfolding K_def [symmetric] ip4a_inside_def
    by (auto simp: ip4a_clip_first_def ip4a_clip_last_def word_less_nat_alt)
qed

lemma ip4a_mincov:
  assumes k: "k < 32"
  shows "(0 < (mask k + 1 :: u32)) = True"
    and "(ucast (mask k + 1 :: u32) \<le> (c :: u64)) = (2 ^ k \<le> unat c)"
proof -
  have e: "(mask k + 1 :: u32) = 2 ^ k"
    by (simp add: mask_eq_exp_minus_1)
  have u32: "unat (2 ^ k :: u32) = 2 ^ k"
  proof -
    have "(2 ^ k :: u32) = word_of_nat (2 ^ k)" by simp
    then have "unat (2 ^ k :: u32) = 2 ^ k mod 2 ^ 32"
      by (simp only: unat_of_nat) simp
    moreover have "(2::nat) ^ k < 2 ^ 32"
      using k by (intro power_strict_increasing) simp_all
    ultimately show ?thesis by simp
  qed
  show "(0 < (mask k + 1 :: u32)) = True"
    unfolding e word_less_nat_alt u32 by simp
  have "unat (ucast (2 ^ k :: u32) :: u64) = take_bit 64 (unat (2 ^ k :: u32))"
    by (simp add: unsigned_ucast_eq)
  also have "\<dots> = 2 ^ k"
  proof -
    have "(2::nat) ^ k < 2 ^ 64"
      using k by (intro power_strict_increasing) simp_all
    then show ?thesis unfolding u32 by (rule take_bit_nat_eq_self)
  qed
  finally show "(ucast (mask k + 1 :: u32) \<le> c) = (2 ^ k \<le> unat c)"
    unfolding e word_le_nat_alt by simp
qed

lemma ip4a_insert_cases:
  assumes wf: "ip4a_wf (Suc r) n" and r: "r < 8"
    and range: "unat a \<le> unat b" "unat a < unat (n_addr (nf n)) + 2 ^ (4 * Suc r)"
      "unat (n_addr (nf n)) \<le> unat b"
    and ins: "ip4a_insert n a b h = Some (0, n', h')"
  obtains (whole) "r < 6" "n' = ip4a_leaf (Suc r) n"
  | (part) n1 h1 where
      "ip4a_insert_loop n (ip4a_clip_first n a) (ip4a_clip_last (Suc r) n b)
         (ip4a_nib r (ip4a_clip_first n a)) (ip4a_nib r (ip4a_clip_last (Suc r) n b)) h = Some (0, n1, h1)"
      "ip4a_wf (Suc r) n1" "n_addr (nf n1) = n_addr (nf n)" "\<not> n_leaf (nf n1)"
      "r < 6 \<and> 2 ^ (4 * Suc r) \<le> unat (n_coverage (nf n1)) \<and> n' = ip4a_leaf (Suc r) n1 \<or>
       (r < 6 \<longrightarrow> unat (n_coverage (nf n1)) < 2 ^ (4 * Suc r)) \<and> n' = n1"
proof -
  let ?F = "ip4a_clip_first n a" and ?L = "ip4a_clip_last (Suc r) n b"
  let ?A = "unat (n_addr (nf n))" and ?S = "2 ^ (4 * r) :: nat"
  have S16: "(2::nat) ^ (4 * Suc r) = 16 * ?S" by (simp add: power_add)
  note cl = ip4a_clip(1-3) [OF wf Suc_leI [OF r] range, unfolded S16]
  have al: "16 * ?S dvd ?A" using ip4a_wf_aligned [OF wf] by (simp add: power_add)
  note nr = nibble_range(1) [of ?S ?A "unat ?F" "unat ?L", OF _ al cl]
  note eq = ins [unfolded ip4a_insert_Suc [OF wf r]]
  show ?thesis
  proof (cases "r < 6 \<and> ?F = n_addr (nf n) \<and> ?L = (n_addr (nf n) OR mask (4 * Suc r))")
    case True
    then have "n' = ip4a_leaf (Suc r) n" using eq by simp
    then show ?thesis using True whole by simp
  next
    case False
    note res = eq [unfolded if_not_P [OF False]]
    then obtain ret n1 h1 where
      loop: "ip4a_insert_loop n ?F ?L (ip4a_nib r ?F) (ip4a_nib r ?L) h = Some (ret, n1, h1)"
      by (cases "ip4a_insert_loop n ?F ?L (ip4a_nib r ?F) (ip4a_nib r ?L) h") auto
    note res' = res [unfolded loop option.case prod.case]
    have ret: "ret = 0" using res' by (cases "ret = 0") simp_all
    have n1: "ip4a_wf (Suc r) n1" "n_addr (nf n1) = n_addr (nf n)" "\<not> n_leaf (nf n1)"
      using ip4a_loop_inv [OF ip4a_insert_inv [OF less_imp_le [OF r]] r cl(2) _ wf cl(1,3) _
          loop [unfolded ret]] nr
      by (simp_all add: ip4a_nib_def)
    have p: "ip4a_minplen \<le> unat (n_plen (nf n1)) \<longleftrightarrow> r < 6"
      using ip4a_wf_plen [OF n1(1)] r by (auto simp: ip4a_minplen_def)
    have "r < 6 \<and> 2 ^ (4 * Suc r) \<le> unat (n_coverage (nf n1)) \<and> n' = ip4a_leaf (Suc r) n1 \<or>
       (r < 6 \<longrightarrow> unat (n_coverage (nf n1)) < 2 ^ (4 * Suc r)) \<and> n' = n1"
    proof (cases "r < 6")
      case True
      then have k: "4 * Suc r < 32" by simp
      note res'' = res' [unfolded p ip4a_mincov [OF k]]
      show ?thesis
      proof (cases "2 ^ (4 * Suc r) \<le> unat (n_coverage (nf n1))")
        case True
        then show ?thesis using res'' ret \<open>r < 6\<close> by simp
      next
        case False
        then show ?thesis using res'' ret \<open>r < 6\<close> by simp
      qed
    next
      case False
      then show ?thesis using res' ret unfolding p by simp
    qed
    then show ?thesis using part [OF loop [unfolded ret] n1] by simp
  qed
qed

lemma ip4a_marked_Suc:
  "ip4a_marked (Suc r) n x \<longleftrightarrow>
     n_leaf (nf n) \<and> n_coverage (nf n) = 2 ^ (4 * Suc r) \<or> ip4a_sub_marked r n x"
  by (simp add: ip4a_sub_marked_def)

declare ip4a_marked.simps(2) [simp del] ip4a_bounded.simps(2) [simp del]

lemma ip4a_bounded_childless: "n_sub n = replicate 16 None \<Longrightarrow> ip4a_bounded r n"
  by (cases r) (simp_all add: ip4a_bounded.simps)

lemma ip4a_bounded_child:
  "ip4a_bounded (Suc r) n \<Longrightarrow> i < 16 \<Longrightarrow> n_sub n ! i = Some c \<Longrightarrow>
   ip4a_cov_ok r c \<and> ip4a_bounded r c"
  by (auto simp: ip4a_bounded.simps split: option.splits)

lemma ip4a_bounded_set_child:
  assumes "ip4a_bounded (Suc r) n" "length (n_sub n) = 16" "i < 16" "ip4a_cov_ok r c" "ip4a_bounded r c"
  shows "ip4a_bounded (Suc r) (set_fields g (set_child i c n))"
  using assms
  by (auto simp: ip4a_bounded.simps set_fields_def set_child_def nth_list_update split: option.splits)

lemma ip4a_sub_marked_set_child:
  assumes "length (n_sub n) = 16" "i < 16"
  shows "ip4a_sub_marked r (set_fields g (set_child i c n)) x \<longleftrightarrow>
     (if ip4a_nib r x = i then ip4a_marked r c x else ip4a_sub_marked r n x)"
  using assms by (simp add: ip4a_sub_marked_def set_fields_def set_child_def nth_list_update)

lemma ip4a_leaf_ok:
  "ip4a_bounded r (ip4a_leaf r n)" "r \<le> 6 \<Longrightarrow> ip4a_cov_ok r (ip4a_leaf r n)"
  "ip4a_marked r (ip4a_leaf r n) x"
proof -
  show "ip4a_bounded r (ip4a_leaf r n)"
    by (rule ip4a_bounded_childless)
      (simp add: ip4a_leaf_def set_fields_def ip4a_delete_def ip4a_bits_def)
  show "r \<le> 6 \<Longrightarrow> ip4a_cov_ok r (ip4a_leaf r n)"
    by (simp add: ip4a_cov_ok_def ip4a_leaf_def nf_set_fields)
  show "ip4a_marked r (ip4a_leaf r n) x"
    by (cases r) (simp_all add: ip4a_marked_Suc ip4a_leaf_def nf_set_fields)
qed

lemma ip4a_cov_le:
  assumes "ip4a_cov_ok r c" "r < 7"
  shows "unat (n_coverage (nf c)) \<le> 2 ^ (4 * r)"
proof (cases "n_leaf (nf c)")
  case True
  then have "n_coverage (nf c) = 2 ^ (4 * r)" using assms by (simp add: ip4a_cov_ok_def)
  then show ?thesis using unat_pow64 [of "4 * r"] assms(2) by simp
next
  case False
  then show ?thesis using assms by (simp add: ip4a_cov_ok_def)
qed

lemma ip4a_loop_marks:
  fixes r :: nat
  assumes IH: "\<And>c a b h c' h'. ip4a_wf r c \<Longrightarrow> ip4a_bounded r c \<Longrightarrow> ip4a_start r c \<Longrightarrow>
       unat a \<le> unat b \<Longrightarrow> unat a < unat (n_addr (nf c)) + 2 ^ (4 * r) \<Longrightarrow>
       unat (n_addr (nf c)) \<le> unat b \<Longrightarrow> ip4a_insert c a b h = Some (0, c', h') \<Longrightarrow>
       ip4a_bounded r c' \<and> ip4a_cov_ok r c' \<and>
       (\<forall>x. ip4a_inside r c x \<longrightarrow> unat a \<le> unat x \<and> unat x \<le> unat b \<or> ip4a_marked r c x \<longrightarrow>
            ip4a_marked r c' x)"
    and r: "r < 8"
    and range: "unat F \<le> unat L"
    and lsub: "lsub = ip4a_nib r L"
  shows "ip4a_wf (Suc r) n \<Longrightarrow> ip4a_bounded (Suc r) n \<Longrightarrow> unat (n_addr (nf n)) \<le> unat F \<Longrightarrow>
     unat L < unat (n_addr (nf n)) + 16 * 2 ^ (4 * r) \<Longrightarrow> ip4a_nib r F \<le> i \<Longrightarrow>
     ip4a_insert_loop n F L i lsub h = Some (0, n', h') \<Longrightarrow>
     ip4a_bounded (Suc r) n' \<and>
     (\<forall>x. ip4a_inside (Suc r) n x \<longrightarrow>
          ip4a_sub_marked r n x \<or> unat F \<le> unat x \<and> unat x \<le> unat L \<and> i \<le> ip4a_nib r x \<longrightarrow>
          ip4a_sub_marked r n' x) \<and>
     (r < 7 \<longrightarrow> unat (n_coverage (nf n)) + (Suc lsub - i) * 2 ^ (4 * r) < 2 ^ 64 \<longrightarrow>
        unat (n_coverage (nf n)) \<le> unat (n_coverage (nf n')))"
proof (induction "Suc lsub - i" arbitrary: n i h)
  case 0
  let ?A = "unat (n_addr (nf n))" and ?S = "2 ^ (4 * r) :: nat"
  have i: "\<not> i \<le> lsub" using 0(1) by simp
  then have n': "n' = n" using 0(7) by (simp add: ip4a_insert_loop.simps [of n F L i lsub h])
  have al: "16 * ?S dvd ?A" using ip4a_wf_aligned [OF 0(2)] by (simp add: power_add)
  have "\<not> i \<le> ip4a_nib r x" if "ip4a_inside (Suc r) n x" "unat x \<le> unat L" for x
    using nibble_range(1) [of ?S ?A "unat x" "unat L", OF _ al _ that(2) 0(5)] that(1) i
    by (simp add: ip4a_inside_def lsub ip4a_nib_def)
  then show ?case using 0(3) unfolding n' by blast
next
  case (Suc k)
  let ?A = "unat (n_addr (nf n))" and ?S = "2 ^ (4 * r) :: nat"
  have i: "i \<le> lsub" "i < 16" using Suc.hyps(2) lsub by (auto simp: ip4a_nib_def)
  have al: "16 * ?S dvd ?A" using ip4a_wf_aligned [OF Suc.prems(1)] by (simp add: power_add)
  note nr = nibble_range [of ?S ?A "unat F" "unat L", OF _ al Suc.prems(3) range Suc.prems(4)]
  have lo: "unat F < ?A + i * ?S + ?S" using nr(2) Suc.prems(5) by (simp add: ip4a_nib_def)
  have hi: "?A + i * ?S \<le> unat L" using nr(3) i(1) lsub by (simp add: ip4a_nib_def)
  have len: "length (n_sub n) = 16" by (rule ip4a_wf_length [OF Suc.prems(1)])
  have S16: "(2::nat) ^ (4 * Suc r) = 16 * ?S" by (simp add: power_add)
  have step: ?case
    if c: "ip4a_wf r c" "unat (n_addr (nf c)) = ?A + i * ?S" "ip4a_bounded r c" "ip4a_start r c"
      and old: "\<And>x. ip4a_nib r x = i \<Longrightarrow> ip4a_sub_marked r n x \<Longrightarrow> ip4a_marked r c x"
      and ins: "ip4a_insert c F L h0 = Some (ret, c', h1)"
      and g: "\<not> n_leaf (g (nf n))" "n_addr (g (nf n)) = n_addr (nf n)"
        "n_plen (g (nf n)) = n_plen (nf n)"
        "n_coverage (g (nf n)) = n_coverage (nf n) + n_coverage (nf c')"
      and res: "(if ret \<noteq> 0 then Some (ret, set_fields g (set_child i c' n), h1)
                 else ip4a_insert_loop (set_fields g (set_child i c' n)) F L (Suc i) lsub h1)
                = Some (0, n', h')"
    for c c' g ret h0 h1
  proof -
    let ?n1 = "set_fields g (set_child i c' n)"
    have ret: "ret = 0" using res by (cases "ret = 0") simp_all
    note ins0 = ins [unfolded ret]
    have rng: "unat F < unat (n_addr (nf c)) + ?S" "unat (n_addr (nf c)) \<le> unat L"
      using lo hi c(2) by simp_all
    have c': "ip4a_wf r c'" "n_addr (nf c') = n_addr (nf c)" "ip4a_full r c'"
      using ip4a_insert_inv [OF less_imp_le [OF r] c(1) range rng ins0] by simp_all
    have m': "ip4a_bounded r c'" "ip4a_cov_ok r c'"
      and mk: "\<And>x. ip4a_inside r c x \<Longrightarrow>
                unat F \<le> unat x \<and> unat x \<le> unat L \<or> ip4a_marked r c x \<Longrightarrow> ip4a_marked r c' x"
      using IH [OF c(1,3,4) range rng ins0] by blast+
    have wf1: "ip4a_wf (Suc r) ?n1"
      using Suc.prems(1) i(2) c'(1,3) _ g(1-3)
      by (rule ip4a_wf_set_child) (simp add: c'(2) c(2))
    have b1: "ip4a_bounded (Suc r) ?n1"
      using Suc.prems(2) len i(2) m'(2,1) by (rule ip4a_bounded_set_child)
    have a1: "n_addr (nf ?n1) = n_addr (nf n)"
      and cov1: "n_coverage (nf ?n1) = n_coverage (nf n) + n_coverage (nf c')"
      by (simp_all add: nf_set_fields nf_set_child g)
    have sm1: "ip4a_sub_marked r ?n1 x \<longleftrightarrow>
        (if ip4a_nib r x = i then ip4a_marked r c' x else ip4a_sub_marked r n x)" for x
      using len i(2) by (rule ip4a_sub_marked_set_child)
    have "k = Suc lsub - Suc i" using Suc.hyps(2) by simp
    moreover have "ip4a_nib r F \<le> Suc i" using Suc.prems(5) by simp
    moreover have "ip4a_insert_loop ?n1 F L (Suc i) lsub h1 = Some (0, n', h')"
      using res ret by simp
    ultimately have rest: "ip4a_bounded (Suc r) n'"
      "\<And>x. ip4a_inside (Suc r) ?n1 x \<Longrightarrow>
          ip4a_sub_marked r ?n1 x \<or> unat F \<le> unat x \<and> unat x \<le> unat L \<and> Suc i \<le> ip4a_nib r x \<Longrightarrow>
          ip4a_sub_marked r n' x"
      "r < 7 \<Longrightarrow> unat (n_coverage (nf ?n1)) + (Suc lsub - Suc i) * ?S < 2 ^ 64 \<Longrightarrow>
        unat (n_coverage (nf ?n1)) \<le> unat (n_coverage (nf n'))"
      using Suc.hyps(1) [of "Suc i" ?n1 h1, OF _ wf1 b1] Suc.prems(3,4) unfolding a1 by blast+
    have in1: "ip4a_inside (Suc r) ?n1 x \<longleftrightarrow> ip4a_inside (Suc r) n x" for x
      by (simp add: ip4a_inside_def a1)
    have marks: "ip4a_sub_marked r n' x"
      if x: "ip4a_inside (Suc r) n x"
        and d: "ip4a_sub_marked r n x \<or> unat F \<le> unat x \<and> unat x \<le> unat L \<and> i \<le> ip4a_nib r x"
      for x
    proof (cases "ip4a_nib r x = i")
      case True
      have xr: "?A \<le> unat x" "unat x < ?A + 16 * ?S"
        using x unfolding ip4a_inside_def S16 by simp_all
      have "ip4a_inside r c x"
        using nibble_inside [of ?S ?A "unat x", OF _ al xr] True c(2)
        by (simp add: ip4a_inside_def ip4a_nib_def)
      moreover have "unat F \<le> unat x \<and> unat x \<le> unat L \<or> ip4a_marked r c x"
        using d old [OF True] by blast
      ultimately have "ip4a_marked r c' x" by (rule mk)
      then have "ip4a_sub_marked r ?n1 x" by (simp add: sm1 True)
      then show ?thesis using rest(2) [of x] x by (simp add: in1)
    next
      case False
      then have "ip4a_sub_marked r ?n1 x \<or>
          unat F \<le> unat x \<and> unat x \<le> unat L \<and> Suc i \<le> ip4a_nib r x"
        using d by (auto simp: sm1)
      then show ?thesis using rest(2) [of x] x by (simp add: in1)
    qed
    have cov: "unat (n_coverage (nf n)) \<le> unat (n_coverage (nf n'))"
      if r7: "r < 7" and room: "unat (n_coverage (nf n)) + (Suc lsub - i) * ?S < 2 ^ 64"
    proof -
      have le: "unat (n_coverage (nf c')) \<le> ?S" using m'(2) r7 by (rule ip4a_cov_le)
      have "(Suc lsub - i) * ?S = ?S + (Suc lsub - Suc i) * ?S"
        using i(1) by (simp add: Suc_diff_le flip: add_mult_distrib)
      then have room': "unat (n_coverage (nf n)) + ?S + (Suc lsub - Suc i) * ?S < 2 ^ 64"
        using room by simp
      then have "unat (n_coverage (nf n)) + unat (n_coverage (nf c')) < 2 ^ LENGTH(64)"
        using le by simp
      then have u: "unat (n_coverage (nf ?n1)) = unat (n_coverage (nf n)) + unat (n_coverage (nf c'))"
        unfolding cov1 by (simp only: unat_add_lem)
      have "unat (n_coverage (nf ?n1)) \<le> unat (n_coverage (nf n'))"
        using r7 room' le by (intro rest(3)) (simp_all add: u)
      then show ?thesis by (simp add: u)
    qed
    show ?thesis using rest(1) marks cov by blast
  qed
  note loop = Suc.prems(6) [unfolded ip4a_insert_loop.simps [of n F L i lsub h]]
  have len': "i < length (n_sub n)" using len i(2) by simp
  show ?case
  proof (cases "n_sub n ! i")
    case (Some sn)
    note ch = ip4a_wf_child [OF Suc.prems(1) i(2) Some]
    note bd = ip4a_bounded_child [OF Suc.prems(2) i(2) Some]
    have nl: "\<not> n_leaf (nf n)"
      using ip4a_wf_leaf_child [OF Suc.prems(1) _ i(2)] Some by auto
    from loop obtain ret c' h1 where ins: "ip4a_insert sn F L h = Some (ret, c', h1)"
      using i len' Some by (cases "ip4a_insert sn F L h") (auto simp: Let_def)
    show ?thesis
    proof (rule step [OF _ _ _ _ _ ins])
      show "ip4a_wf r sn" "unat (n_addr (nf sn)) = ?A + i * ?S" using ch by simp_all
      show "ip4a_bounded r sn" "ip4a_start r sn" using bd by (simp_all add: ip4a_start_def)
      show "ip4a_marked r sn x" if "ip4a_nib r x = i" "ip4a_sub_marked r n x" for x
        using that Some by (simp add: ip4a_sub_marked_def)
      show "(if ret \<noteq> 0 then Some (ret, set_fields (\<lambda>f. f\<lparr>n_coverage := n_coverage f + n_coverage (nf c')\<rparr>) (set_child i c' n), h1)
          else ip4a_insert_loop (set_fields (\<lambda>f. f\<lparr>n_coverage := n_coverage f + n_coverage (nf c')\<rparr>) (set_child i c' n)) F L (Suc i) lsub h1)
          = Some (0, n', h')"
        using loop i len' Some ins by (simp add: Let_def)
    qed (simp_all add: nl)
  next
    case None
    obtain b h0 where cal: "calloc h = (b, h0)" by (cases "calloc h")
    have b: b using loop i len' None cal by (cases b) (simp_all add: Let_def)
    let ?sn = "Ip4a \<lparr>n_addr = n_addr (nf n) OR push_bit (32 - (unat (n_plen (nf n)) + ip4a_bits)) (word_of_nat i),
                       n_plen = word_of_nat (unat (n_plen (nf n)) + ip4a_bits), n_leaf = True, n_coverage = 0\<rparr>
                 (replicate 16 None)"
    note fr = ip4a_wf_fresh [OF Suc.prems(1) r i(2)]
    have sp: "\<not> 32 < unat (n_plen (nf n)) + ip4a_bits"
      using ip4a_wf_plen [OF Suc.prems(1)] by (simp add: ip4a_bits_def)
    from loop obtain ret c' h1 where ins: "ip4a_insert ?sn F L h0 = Some (ret, c', h1)"
      using i len' None cal b sp by (cases "ip4a_insert ?sn F L h0") (auto simp: Let_def)
    show ?thesis
    proof (rule step [OF _ _ _ _ _ ins])
      show "ip4a_wf r ?sn" "unat (n_addr (nf ?sn)) = ?A + i * ?S" using fr by simp_all
      show "ip4a_bounded r ?sn" by (rule ip4a_bounded_childless) simp
      show "ip4a_start r ?sn" by (simp add: ip4a_start_def)
      show "ip4a_marked r ?sn x" if "ip4a_nib r x = i" "ip4a_sub_marked r n x" for x
        using that None by (simp add: ip4a_sub_marked_def)
      show "(if ret \<noteq> 0 then Some (ret, set_fields (\<lambda>f. f\<lparr>n_leaf := False, n_coverage := n_coverage f + n_coverage (nf c')\<rparr>) (set_child i c' n), h1)
          else ip4a_insert_loop (set_fields (\<lambda>f. f\<lparr>n_leaf := False, n_coverage := n_coverage f + n_coverage (nf c')\<rparr>) (set_child i c' n)) F L (Suc i) lsub h1)
          = Some (0, n', h')"
        using loop i len' None cal b sp ins by (simp add: Let_def)
    qed simp_all
  qed
qed

lemma ip4a_insert_marks:
  "r \<le> 8 \<Longrightarrow> ip4a_wf r n \<Longrightarrow> ip4a_bounded r n \<Longrightarrow> ip4a_start r n \<Longrightarrow>
   unat a \<le> unat b \<Longrightarrow> unat a < unat (n_addr (nf n)) + 2 ^ (4 * r) \<Longrightarrow>
   unat (n_addr (nf n)) \<le> unat b \<Longrightarrow> ip4a_insert n a b h = Some (0, n', h') \<Longrightarrow>
   ip4a_bounded r n' \<and> ip4a_cov_ok r n' \<and>
   (\<forall>x. ip4a_inside r n x \<longrightarrow> unat a \<le> unat x \<and> unat x \<le> unat b \<or> ip4a_marked r n x \<longrightarrow>
        ip4a_marked r n' x)"
proof (induction r arbitrary: n a b h n' h')
  case 0
  have "n' = ip4a_leaf 0 n" using 0(8) by (simp add: ip4a_insert_0 [OF 0(2)])
  then show ?case using ip4a_leaf_ok [of 0 n] by simp
next
  case (Suc r)
  let ?F = "ip4a_clip_first n a" and ?L = "ip4a_clip_last (Suc r) n b"
  let ?A = "unat (n_addr (nf n))" and ?S = "2 ^ (4 * r) :: nat"
  have r: "r < 8" using Suc.prems(1) by simp
  have S16: "(2::nat) ^ (4 * Suc r) = 16 * ?S" by (simp add: power_add)
  note range = Suc.prems(5-7)
  note cl = ip4a_clip(1-3) [OF Suc.prems(2,1) range, unfolded S16]
  note cl4 = ip4a_clip(4) [OF Suc.prems(2,1) range]
  have al: "16 * ?S dvd ?A" using ip4a_wf_aligned [OF Suc.prems(2)] by (simp add: power_add)
  from Suc.prems(2) r range Suc.prems(8) show ?case
  proof (cases rule: ip4a_insert_cases)
    case whole
    then show ?thesis using ip4a_leaf_ok [of "Suc r" n] by simp
  next
    case (part n1 h1)
    have IH: "ip4a_bounded r c' \<and> ip4a_cov_ok r c' \<and>
       (\<forall>x. ip4a_inside r c x \<longrightarrow> unat a \<le> unat x \<and> unat x \<le> unat b \<or> ip4a_marked r c x \<longrightarrow>
            ip4a_marked r c' x)"
      if "ip4a_wf r c" "ip4a_bounded r c" "ip4a_start r c" "unat a \<le> unat b"
        "unat a < unat (n_addr (nf c)) + 2 ^ (4 * r)" "unat (n_addr (nf c)) \<le> unat b"
        "ip4a_insert c a b h = Some (0, c', h')" for c a b h c' h'
      using less_imp_le [OF r] that by (rule Suc.IH)
    have lm: "ip4a_bounded (Suc r) n1 \<and>
       (\<forall>x. ip4a_inside (Suc r) n x \<longrightarrow>
            ip4a_sub_marked r n x \<or>
            unat ?F \<le> unat x \<and> unat x \<le> unat ?L \<and> ip4a_nib r ?F \<le> ip4a_nib r x \<longrightarrow>
            ip4a_sub_marked r n1 x) \<and>
       (r < 7 \<longrightarrow>
          unat (n_coverage (nf n)) + (Suc (ip4a_nib r ?L) - ip4a_nib r ?F) * ?S < 2 ^ 64 \<longrightarrow>
          unat (n_coverage (nf n)) \<le> unat (n_coverage (nf n1)))"
      using IH r cl(2) refl Suc.prems(2,3) cl(1,3) le_refl part(1) by (rule ip4a_loop_marks)
    from part(5) show ?thesis
    proof
      assume "r < 6 \<and> 2 ^ (4 * Suc r) \<le> unat (n_coverage (nf n1)) \<and> n' = ip4a_leaf (Suc r) n1"
      then show ?thesis using ip4a_leaf_ok [of "Suc r" n1] by simp
    next
      assume keep: "(r < 6 \<longrightarrow> unat (n_coverage (nf n1)) < 2 ^ (4 * Suc r)) \<and> n' = n1"
      have ok: "ip4a_cov_ok (Suc r) n1"
        using keep part(4) by (auto simp: ip4a_cov_ok_def)
      have nofull: "\<not> (n_leaf (nf n) \<and> n_coverage (nf n) = 2 ^ (4 * Suc r))"
      proof
        assume f: "n_leaf (nf n) \<and> n_coverage (nf n) = 2 ^ (4 * Suc r)"
        have u: "unat (2 ^ (4 * Suc r) :: u64) = 2 ^ (4 * Suc r)"
          using r by (intro unat_pow64) simp
        have "n_coverage (nf n) \<noteq> 0" using f u by (metis power_not_zero unat_0 zero_neq_numeral)
        then have "ip4a_cov_ok (Suc r) n" using Suc.prems(4) by (simp add: ip4a_start_def)
        then have r6: "r < 6" using f by (auto simp: ip4a_cov_ok_def split: if_splits)
        have c: "unat (n_coverage (nf n)) = 16 * ?S" using f u by (simp add: power_add)
        have S20: "?S \<le> 2 ^ 20" using r6 by (intro power_increasing) simp_all
        have "Suc (ip4a_nib r ?L) - ip4a_nib r ?F \<le> 16" by (simp add: ip4a_nib_def)
        then have "(Suc (ip4a_nib r ?L) - ip4a_nib r ?F) * ?S \<le> 16 * ?S" by (rule mult_le_mono1)
        then have "16 * ?S + (Suc (ip4a_nib r ?L) - ip4a_nib r ?F) * ?S \<le> 16 * ?S + 16 * ?S"
          by (rule add_left_mono)
        also have "\<dots> \<le> 32 * 2 ^ 20" using S20 by simp
        also have "\<dots> < 2 ^ 64" by simp
        finally have "unat (n_coverage (nf n)) + (Suc (ip4a_nib r ?L) - ip4a_nib r ?F) * ?S < 2 ^ 64"
          unfolding c .
        then have "unat (n_coverage (nf n)) \<le> unat (n_coverage (nf n1))"
          using lm r6 by simp
        then show False using keep r6 c by (simp add: power_add)
      qed
      have marks: "ip4a_marked (Suc r) n1 x"
        if x: "ip4a_inside (Suc r) n x"
          and d: "unat a \<le> unat x \<and> unat x \<le> unat b \<or> ip4a_marked (Suc r) n x" for x
      proof -
        have xr: "?A \<le> unat x" using x by (simp add: ip4a_inside_def)
        have "ip4a_sub_marked r n x \<or>
            unat ?F \<le> unat x \<and> unat x \<le> unat ?L \<and> ip4a_nib r ?F \<le> ip4a_nib r x"
        proof (cases "unat a \<le> unat x \<and> unat x \<le> unat b")
          case True
          then have fl: "unat ?F \<le> unat x" "unat x \<le> unat ?L" using cl4 [OF x] by simp_all
          have "ip4a_nib r ?F \<le> ip4a_nib r x"
            using nibble_range(1) [of ?S ?A "unat ?F" "unat x", OF _ al cl(1) fl(1)] fl(2) cl(3)
            by (simp add: ip4a_nib_def)
          then show ?thesis using fl by simp
        next
          case False
          then show ?thesis using d nofull unfolding ip4a_marked_Suc by blast
        qed
        then have "ip4a_sub_marked r n1 x" using lm x by blast
        then show ?thesis by (simp add: ip4a_marked_Suc)
      qed
      show ?thesis using lm ok marks keep by blast
    qed
  qed
qed

lemma ip4a_inside_root: "n_addr (nf n) = 0 \<Longrightarrow> ip4a_inside 8 n x"
  using unsigned_less [of x, where 'a = nat] by (simp add: ip4a_inside_def)

lemma ip4a_inserts_marks:
  "ip4a_wf 8 n \<Longrightarrow> n_addr (nf n) = 0 \<Longrightarrow> ip4a_bounded 8 n \<Longrightarrow> ip4a_start 8 n \<Longrightarrow>
   \<forall>(a, b, h) \<in> set rs. a \<le> b \<Longrightarrow> ip4a_inserts rs n = Some t \<Longrightarrow>
   (ip4a_marked 8 n x \<longrightarrow> ip4a_marked 8 t x) \<and>
   (\<forall>(a, b, h) \<in> set rs. a \<le> x \<and> x \<le> b \<longrightarrow> ip4a_marked 8 t x)"
proof (induction rs arbitrary: n)
  case Nil
  then show ?case by simp
next
  case (Cons y rs)
  obtain a b h where y: "y = (a, b, h)" by (cases y)
  from Cons.prems(6) obtain n1 h1 where
    ins: "ip4a_insert n a b h = Some (0, n1, h1)" and rest: "ip4a_inserts rs n1 = Some t"
    unfolding y by (auto split: option.splits if_splits)
  have ab: "unat a \<le> unat b" using Cons.prems(5) by (simp add: y word_le_nat_alt)
  have lt: "unat a < unat (n_addr (nf n)) + 2 ^ (4 * 8)"
    using unsigned_less [of a, where 'a = nat] by simp
  have le: "unat (n_addr (nf n)) \<le> unat b" using Cons.prems(2) by simp
  have n1: "ip4a_wf 8 n1" "n_addr (nf n1) = 0"
    using ip4a_insert_inv [OF _ Cons.prems(1) ab lt le ins] Cons.prems(2) by simp_all
  have m1: "ip4a_bounded 8 n1" "ip4a_cov_ok 8 n1"
    and mk: "ip4a_inside 8 n x \<Longrightarrow> unat a \<le> unat x \<and> unat x \<le> unat b \<or> ip4a_marked 8 n x \<Longrightarrow>
             ip4a_marked 8 n1 x"
    using ip4a_insert_marks [OF _ Cons.prems(1,3,4) ab lt le ins] by auto
  have IH: "(ip4a_marked 8 n1 x \<longrightarrow> ip4a_marked 8 t x) \<and>
      (\<forall>(a, b, h) \<in> set rs. a \<le> x \<and> x \<le> b \<longrightarrow> ip4a_marked 8 t x)"
    using n1 m1 Cons.prems(5) rest by (intro Cons.IH) (simp_all add: ip4a_start_def)
  show ?case
    using IH mk ip4a_inside_root [OF Cons.prems(2)] by (auto simp: y word_le_nat_alt)
qed

lemma ip4a_empty_start: "ip4a_bounded 8 ip4a_empty" "ip4a_start 8 ip4a_empty"
proof -
  show "ip4a_bounded 8 ip4a_empty"
    by (rule ip4a_bounded_childless) (simp add: ip4a_empty_def ip4a_zero_def set_fields_def)
  show "ip4a_start 8 ip4a_empty"
    by (simp add: ip4a_start_def ip4a_empty_def ip4a_zero_def set_fields_def)
qed
section \<open>Claims about the ARP tracker\<close>

text \<open>
  C4 (as amended).  A packet that fails validation leaves the whole state as it was.
  With a header of full length whose hardware or protocol type or length fields do not
  match, or whose operation is neither who-has nor is-at, \<^verbatim>\<open>packet_analyze_arp\<close> returns 0;
  a packet shorter than \<^verbatim>\<open>sizeof(arp_pkt)\<close> makes it return -1.
\<close>

theorem packet_validation_failure:
  assumes "\<not> valid_header ap len \<or> (oper ap \<noteq> arp_oper_who_has \<and> oper ap \<noteq> arp_oper_is_at)"
  shows "packet_analyze_arp dst_set ethernet_reply fl ap len st =
           (if len < sizeof_arp_pkt then Return (- 1) else Return 0, st)"
  using assms
  by (auto simp: packet_analyze_arp_def valid_header_def)

theorem packet_validation_failure_witness:
  "packet_analyze_arp None transmit_ok (flow_at 0) (request_b\<lparr>oper := 3\<rparr>) 28 arp_init =
     (Return 0, arp_init)"
  using packet_validation_failure [of "request_b\<lparr>oper := 3\<rparr>" 28 None transmit_ok "flow_at 0" arp_init]
  by (simp add: valid_header_def request_b_def arp_oper_who_has_def arp_oper_is_at_def
      sizeof_arp_pkt_def)

text \<open>
  The claim as stated fails for a short packet: 27 octets make \<^verbatim>\<open>packet_analyze_arp\<close> return
  -1, which its callers read as an error.
\<close>

theorem short_packet_is_an_error:
  "packet_analyze_arp None transmit_ok (flow_at 0) request_b 27 arp_init =
     (Return (- 1), arp_init)"
  by (simp add: packet_analyze_arp_def sizeof_arp_pkt_def)




text \<open>
  C3 (as amended).  The target has no record yet, or a record that is neither claimed
  nor reserved with \<^verbatim>\<open>nreq == 0\<close>.  Well-formed in-scope who-has requests for it are
  captured at 0, 1000, 3000 and 3500 ms, the second to the fourth sent by a host other
  than the target, and a fifth is captured at any time; each is processed with return
  value 0.  The first three bring \<^verbatim>\<open>nreq\<close> to 1, 2 and 3, leave the record unclaimed and
  send no reply; the fourth sets \<^verbatim>\<open>claimed\<close> and sends one reply, the only one so far; the
  fifth finds the address claimed, leaves it claimed and sends one more reply.
\<close>

theorem claim_on_fourth_request:
  assumes start: "case arp_node ip (calls cs arp_init) of None \<Rightarrow> True
                  | Some x \<Rightarrow> \<not> an_claimed x \<and> \<not> an_reserved x \<and> an_nreq x = 0"
    and req1: "who_has_request ip dst1 ap1 len1" "capture_ms fl1 = 0"
    and req2: "who_has_request ip dst2 ap2 len2" "spa ap2 \<noteq> ip" "capture_ms fl2 = 1000"
    and req3: "who_has_request ip dst3 ap3 len3" "spa ap3 \<noteq> ip" "capture_ms fl3 = 3000"
    and req4: "who_has_request ip dst4 ap4 len4" "spa ap4 \<noteq> ip" "capture_ms fl4 = 3500"
    and req5: "who_has_request ip dst5 ap5 len5"
    and run1: "packet_analyze_arp dst1 er1 fl1 ap1 len1 ((calls cs arp_init)\<lparr>heap := h1\<rparr>) =
                 (Return 0, st1)"
    and run2: "packet_analyze_arp dst2 er2 fl2 ap2 len2 (st1\<lparr>heap := h2\<rparr>) = (Return 0, st2)"
    and run3: "packet_analyze_arp dst3 er3 fl3 ap3 len3 (st2\<lparr>heap := h3\<rparr>) = (Return 0, st3)"
    and run4: "packet_analyze_arp dst4 er4 fl4 ap4 len4 (st3\<lparr>heap := h4\<rparr>) = (Return 0, st4)"
    and run5: "packet_analyze_arp dst5 er5 fl5 ap5 len5 (st4\<lparr>heap := h5\<rparr>) = (Return 0, st5)"
  shows "(\<exists>x. arp_node ip st1 = Some x \<and> \<not> an_claimed x \<and> an_nreq x = 1) \<and>
         (\<exists>x. arp_node ip st2 = Some x \<and> \<not> an_claimed x \<and> an_nreq x = 2) \<and>
         (\<exists>x. arp_node ip st3 = Some x \<and> \<not> an_claimed x \<and> an_nreq x = 3) \<and>
         sent st1 = sent (calls cs arp_init) \<and> sent st2 = sent (calls cs arp_init) \<and>
         sent st3 = sent (calls cs arp_init) \<and>
         (\<exists>x. arp_node ip st4 = Some x \<and> an_claimed x) \<and>
         sent st4 = sent (calls cs arp_init) @ [is_at_reply fl4 ap4] \<and>
         (\<exists>x. arp_node ip st5 = Some x \<and> an_claimed x) \<and>
         sent st5 = sent (calls cs arp_init) @ [is_at_reply fl4 ap4, is_at_reply fl5 ap5]"
proof -
  let ?st0 = "calls cs arp_init"
  define x0 where "x0 = before (arp_root (?st0\<lparr>heap := h1\<rparr>)) ip 0"
  have inv0: "arp_inv (?st0\<lparr>heap := h1\<rparr>)" by (simp add: arp_inv_reachable)
  have x0: "\<not> an_claimed x0" "\<not> an_reserved x0" "an_nreq x0 = 0"
    using start by (auto simp: x0_def before_def arp_node_def record0_def split: option.splits)
  from inv0 req1(1) run1 req1(2) [symmetric] x0_def
  obtain x where x: "an_claimed x = an_claimed x0" "an_reserved x = an_reserved x0"
      "an_nreq x = (if spa ap1 = ip then 0 else an_nreq x0)"
    and inv1: "arp_inv st1"
    and s1: "if an_reserved x then
           sent st1 = sent (?st0\<lparr>heap := h1\<rparr>) \<and> arp_node ip st1 = Some (x\<lparr>an_nreq := 0\<rparr>)
         else if an_claimed x then
           sent st1 = sent (?st0\<lparr>heap := h1\<rparr>) @ [is_at_reply fl1 ap1] \<and>
           arp_node ip st1 = Some (x\<lparr>an_nreq := 0, an_last := 0\<rparr>)
         else if an_nreq x = 0 \<or> 0 - an_last x \<ge> 30000 then
           sent st1 = sent (?st0\<lparr>heap := h1\<rparr>) \<and>
           arp_node ip st1 = Some (x\<lparr>an_nreq := 1, an_first := 0, an_last := 0\<rparr>)
         else if an_nreq x \<ge> 3 \<and> 0 - an_first x \<ge> 3000 then
           sent st1 = sent (?st0\<lparr>heap := h1\<rparr>) @ [is_at_reply fl1 ap1] \<and>
           arp_node ip st1 = Some (x\<lparr>an_claimed := True, an_nreq := 0, an_last := 0\<rparr>)
         else
           sent st1 = sent (?st0\<lparr>heap := h1\<rparr>) \<and>
           arp_node ip st1 = Some (x\<lparr>an_nreq := an_nreq x + 1, an_last := 0\<rparr>)"
    by (rule who_has_step_any)
  have "an_nreq x = 0" using x(3) x0(3) by simp
  with s1 x(1,2) x0 obtain y1 where y1: "arp_node ip st1 = Some y1"
      "\<not> an_claimed y1" "\<not> an_reserved y1" "an_nreq y1 = 1" "an_first y1 = 0" "an_last y1 = 0"
    and sent1: "sent st1 = sent ?st0"
    by auto
  define x1 where "x1 = before (arp_root (st1\<lparr>heap := h2\<rparr>)) ip 1000"
  have x1: "x1 = y1" using y1(1) by (simp add: x1_def before_Some)
  have inv1': "arp_inv (st1\<lparr>heap := h2\<rparr>)" using inv1 by simp
  note s2 = who_has_step [OF inv1' who_has_forI [OF req2(1,2)] run2 req2(3) [symmetric] x1_def]
  from s2(2) y1 obtain y2 where y2: "arp_node ip st2 = Some y2"
      "\<not> an_claimed y2" "\<not> an_reserved y2" "an_nreq y2 = 2" "an_first y2 = 0" "an_last y2 = 1000"
    and sent2: "sent st2 = sent st1"
    by (auto simp: x1)
  define x2 where "x2 = before (arp_root (st2\<lparr>heap := h3\<rparr>)) ip 3000"
  have x2: "x2 = y2" using y2(1) by (simp add: x2_def before_Some)
  have inv2: "arp_inv (st2\<lparr>heap := h3\<rparr>)" using s2(1) by simp
  note s3 = who_has_step [OF inv2 who_has_forI [OF req3(1,2)] run3 req3(3) [symmetric] x2_def]
  from s3(2) y2 obtain y3 where y3: "arp_node ip st3 = Some y3"
      "\<not> an_claimed y3" "\<not> an_reserved y3" "an_nreq y3 = 3" "an_first y3 = 0" "an_last y3 = 3000"
    and sent3: "sent st3 = sent st2"
    by (auto simp: x2)
  define x3 where "x3 = before (arp_root (st3\<lparr>heap := h4\<rparr>)) ip 3500"
  have x3: "x3 = y3" using y3(1) by (simp add: x3_def before_Some)
  have inv3: "arp_inv (st3\<lparr>heap := h4\<rparr>)" using s3(1) by simp
  note s4 = who_has_step [OF inv3 who_has_forI [OF req4(1,2)] run4 req4(3) [symmetric] x3_def]
  from s4(2) y3 obtain y4 where y4: "arp_node ip st4 = Some y4" "an_claimed y4" "\<not> an_reserved y4"
    and sent4: "sent st4 = sent st3 @ [is_at_reply fl4 ap4]"
    by (auto simp: x3)
  define x4 where "x4 = before (arp_root (st4\<lparr>heap := h5\<rparr>)) ip (capture_ms fl5)"
  have x4: "x4 = y4" using y4(1) by (simp add: x4_def before_Some)
  have inv4: "arp_inv (st4\<lparr>heap := h5\<rparr>)" using s4(1) by simp
  from inv4 req5 run5 refl x4_def
  obtain z where z: "an_claimed z = an_claimed x4" "an_reserved z = an_reserved x4"
    and s5: "if an_reserved z then
           sent st5 = sent (st4\<lparr>heap := h5\<rparr>) \<and> arp_node ip st5 = Some (z\<lparr>an_nreq := 0\<rparr>)
         else if an_claimed z then
           sent st5 = sent (st4\<lparr>heap := h5\<rparr>) @ [is_at_reply fl5 ap5] \<and>
           arp_node ip st5 = Some (z\<lparr>an_nreq := 0, an_last := capture_ms fl5\<rparr>)
         else if an_nreq z = 0 \<or> capture_ms fl5 - an_last z \<ge> 30000 then
           sent st5 = sent (st4\<lparr>heap := h5\<rparr>) \<and>
           arp_node ip st5 = Some (z\<lparr>an_nreq := 1, an_first := capture_ms fl5, an_last := capture_ms fl5\<rparr>)
         else if an_nreq z \<ge> 3 \<and> capture_ms fl5 - an_first z \<ge> 3000 then
           sent st5 = sent (st4\<lparr>heap := h5\<rparr>) @ [is_at_reply fl5 ap5] \<and>
           arp_node ip st5 = Some (z\<lparr>an_claimed := True, an_nreq := 0, an_last := capture_ms fl5\<rparr>)
         else
           sent st5 = sent (st4\<lparr>heap := h5\<rparr>) \<and>
           arp_node ip st5 = Some (z\<lparr>an_nreq := an_nreq z + 1, an_last := capture_ms fl5\<rparr>)"
    by (rule who_has_step_any)
  from s5 z y4 have "(\<exists>x. arp_node ip st5 = Some x \<and> an_claimed x) \<and>
      sent st5 = sent st4 @ [is_at_reply fl5 ap5]"
    by (simp add: x4)
  with y1 y2 y3 y4 sent1 sent2 sent3 sent4 show ?thesis by simp
qed

theorem claim_on_fourth_request_witness:
  "(\<exists>x. arp_node host_b (calls (take 1 five_requests) arp_init) = Some x \<and> \<not> an_claimed x \<and> an_nreq x = 1) \<and>
   (\<exists>x. arp_node host_b (calls (take 2 five_requests) arp_init) = Some x \<and> \<not> an_claimed x \<and> an_nreq x = 2) \<and>
   (\<exists>x. arp_node host_b (calls (take 3 five_requests) arp_init) = Some x \<and> \<not> an_claimed x \<and> an_nreq x = 3) \<and>
   sent (calls (take 1 five_requests) arp_init) = sent (calls [] arp_init) \<and>
   sent (calls (take 2 five_requests) arp_init) = sent (calls [] arp_init) \<and>
   sent (calls (take 3 five_requests) arp_init) = sent (calls [] arp_init) \<and>
   (\<exists>x. arp_node host_b (calls (take 4 five_requests) arp_init) = Some x \<and> an_claimed x) \<and>
   sent (calls (take 4 five_requests) arp_init) =
     sent (calls [] arp_init) @ [is_at_reply (flow_at 3500) request_b] \<and>
   (\<exists>x. arp_node host_b (calls five_requests arp_init) = Some x \<and> an_claimed x) \<and>
   sent (calls five_requests arp_init) =
     sent (calls [] arp_init) @ [is_at_reply (flow_at 3500) request_b, is_at_reply (flow_at 4000) request_b]"
proof -
  have start: "case arp_node host_b (calls [] arp_init) of None \<Rightarrow> True
               | Some x \<Rightarrow> \<not> an_claimed x \<and> \<not> an_reserved x \<and> an_nreq x = 0"
    by code_simp
  have req: "who_has_request host_b None request_b 28" and other: "spa request_b \<noteq> host_b"
    by code_simp+
  have t: "capture_ms (flow_at 0) = 0" "capture_ms (flow_at 1000) = 1000"
    "capture_ms (flow_at 3000) = 3000" "capture_ms (flow_at 3500) = 3500"
    by code_simp+
  have run1: "packet_analyze_arp None transmit_ok (flow_at 0) request_b 28
                ((calls [] arp_init)\<lparr>heap := replicate 16 True\<rparr>) =
              (Return 0, calls (take 1 five_requests) arp_init)"
    by code_simp
  have run2: "packet_analyze_arp None transmit_ok (flow_at 1000) request_b 28
                ((calls (take 1 five_requests) arp_init)\<lparr>heap := replicate 16 True\<rparr>) =
              (Return 0, calls (take 2 five_requests) arp_init)"
    by code_simp
  have run3: "packet_analyze_arp None transmit_ok (flow_at 3000) request_b 28
                ((calls (take 2 five_requests) arp_init)\<lparr>heap := replicate 16 True\<rparr>) =
              (Return 0, calls (take 3 five_requests) arp_init)"
    by code_simp
  have run4: "packet_analyze_arp None transmit_ok (flow_at 3500) request_b 28
                ((calls (take 3 five_requests) arp_init)\<lparr>heap := replicate 16 True\<rparr>) =
              (Return 0, calls (take 4 five_requests) arp_init)"
    by code_simp
  have run5: "packet_analyze_arp None transmit_ok (flow_at 4000) request_b 28
                ((calls (take 4 five_requests) arp_init)\<lparr>heap := replicate 16 True\<rparr>) =
              (Return 0, calls five_requests arp_init)"
    by code_simp
  show ?thesis
    by (rule claim_on_fourth_request
        [OF start req t(1) req other t(2) req other t(3) req other t(4) req run1 run2 run3 run4 run5])
qed

text \<open>
  The claim as stated fails on the empty tracker: after three requests at 0, 1000 and
  3000 ms the target's record has counted three requests and is not claimed, and no
  reply has been sent.
\<close>

theorem third_request_does_not_claim:
  "map_option an_claimed
     (arp_node host_b (calls [request_at 0, request_at 1000, request_at 3000] arp_init)) = Some False \<and>
   map_option an_nreq
     (arp_node host_b (calls [request_at 0, request_at 1000, request_at 3000] arp_init)) = Some 3 \<and>
   sent (calls [request_at 0, request_at 1000, request_at 3000] arp_init) = []"
  by code_simp

text \<open>
  The sender matters: \<^verbatim>\<open>packet_analyze_arp\<close> first registers the sender, and \<^verbatim>\<open>arp_register\<close>
  sets \<^verbatim>\<open>nreq\<close> to 0.  Four requests that 10.0.0.9 sends for 10.0.0.9 at the same times all
  return 0 and leave its record unclaimed with \<^verbatim>\<open>nreq == 1\<close>, and no reply is sent.
\<close>

lemma own_requests_do_not_claim:
  "map_option (\<lambda>x. (an_claimed x, an_nreq x))
     (arp_node host_b
        (calls (map (\<lambda>ms. (replicate 16 True, Analyze None transmit_ok (flow_at ms) request_own 28))
                  [0, 1000, 3000, 3500]) arp_init)) = Some (False, 1) \<and>
   sent (calls (map (\<lambda>ms. (replicate 16 True, Analyze None transmit_ok (flow_at ms) request_own 28))
                  [0, 1000, 3000, 3500]) arp_init) = [] \<and>
   map (\<lambda>k. fst (packet_analyze_arp None transmit_ok (flow_at ([0, 1000, 3000, 3500] ! k)) request_own 28
                   ((calls (map (\<lambda>ms. (replicate 16 True,
                                         Analyze None transmit_ok (flow_at ms) request_own 28))
                              (take k [0, 1000, 3000, 3500])) arp_init)\<lparr>heap := replicate 16 True\<rparr>)))
     [0, 1, 2, 3] = [Return 0, Return 0, Return 0, Return 0]"
  by code_simp

text \<open>
  C8.  In every state the calls can reach from the empty tracker, an \<^verbatim>\<open>arp_register\<close> of
  \<open>ip\<close> with \<open>mac\<close> that returns 0 is followed by an \<^verbatim>\<open>arp_lookup\<close> of \<open>ip\<close> that succeeds
  with \<open>mac\<close>; and \<^verbatim>\<open>arp_lookup\<close> of an address whose eight-step path does not lead to a
  node fails.
\<close>

theorem register_then_lookup:
  "(arp_register ip mac t ((calls cs arp_init)\<lparr>heap := h\<rparr>) = (Return 0, st') \<longrightarrow>
      arp_lookup ip st' = Some mac) \<and>
   (deref (arp_root (calls cs arp_init)) (ip_path ip') = None \<longrightarrow>
      arp_lookup ip' (calls cs arp_init) = None)"
proof (intro conjI impI)
  have inv: "arp_inv ((calls cs arp_init)\<lparr>heap := h\<rparr>)" by (simp add: arp_inv_reachable)
  assume reg: "arp_register ip mac t ((calls cs arp_init)\<lparr>heap := h\<rparr>) = (Return 0, st')"
  from arp_register_effect(1,4) [OF inv reg] show "arp_lookup ip st' = Some mac"
    by (auto simp: arp_lookup_node)
next
  assume "deref (arp_root (calls cs arp_init)) (ip_path ip') = None"
  then show "arp_lookup ip' (calls cs arp_init) = None"
    by (simp add: arp_lookup_node [OF arp_inv_reachable] arp_node_def node_of_def)
qed

theorem register_then_lookup_witness:
  "arp_lookup host_a (snd (arp_register host_a mac_a 5 ((calls [] arp_init)\<lparr>heap := replicate 8 True\<rparr>)))
     = Some mac_a \<and>
   arp_lookup host_b (calls [] arp_init) = None"
proof -
  have reg: "arp_register host_a mac_a 5 ((calls [] arp_init)\<lparr>heap := replicate 8 True\<rparr>) =
      (Return 0, snd (arp_register host_a mac_a 5 ((calls [] arp_init)\<lparr>heap := replicate 8 True\<rparr>)))"
    by code_simp
  have absent: "deref (arp_root (calls [] arp_init)) (ip_path host_b) = None"
    by code_simp
  from register_then_lookup [where ip = host_a and mac = mac_a and t = 5 and cs = "[]"
      and h = "replicate 8 True" and ip' = host_b] reg absent
  show ?thesis by blast
qed

text \<open>
  C9.  In every tree built from the zeroed root by \<^verbatim>\<open>arp_insert\<close> calls, \<^verbatim>\<open>arp_insert\<close> for
  any address neither fails its assertion nor leaves defined behaviour; it returns \<^verbatim>\<open>NULL\<close>
  or a /32 node whose stored address is the address asked for.
\<close>

theorem insert_assertion_holds:
  "case arp_insert (arp_inserts xs arpn_zero) addr w h of
     (res, t', h') \<Rightarrow>
       res \<noteq> Assert_failed \<and> res \<noteq> Fault \<and>
       (case res of
          Node p \<Rightarrow> map_option (\<lambda>n. (an_plen (hdr n), an_addr (hdr n))) (deref t' p) = Some (32, addr)
        | _ \<Rightarrow> True)"
proof -
  have root: "push_bit (4 * 8) (drop_bit (4 * 8) a) = (0 :: u32)" for a
    by simp
  have step: "tree_inv (fst (snd (arp_insert t a v g)))" if "tree_inv t" for t a v g
    using arp_insert_post [of 8 t a v g] that
    by (cases "arp_insert t a v g") (simp add: tree_inv_def insert_post_def)
  have reach: "tree_inv (arp_inserts xs t)" if "tree_inv t" for t
    using that
  proof (induction xs arbitrary: t)
    case Nil
    then show ?case by simp
  next
    case (Cons x xs)
    obtain a v g where x: "x = (a, v, g)" by (cases x)
    from Cons.IH [OF step [OF Cons.prems, of a v g]] show ?case by (simp add: x)
  qed
  let ?t = "arp_inserts xs arpn_zero"
  have t: "arp_wf 8 ?t" "an_addr (hdr ?t) = push_bit (4 * 8) (drop_bit (4 * 8) addr)"
    using reach [OF tree_inv_zero] by (simp_all add: tree_inv_def)
  obtain res t' h' where ins: "arp_insert ?t addr w h = (res, t', h')"
    by (cases "arp_insert ?t addr w h")
  from arp_insert_post [OF t, of w h] ins
  have post: "insert_post 8 ?t addr w h (res, t', h')" by simp
  then have res: "res = Null \<or> res = Node (path 8 addr)"
    by (auto simp: insert_post_def split: option.splits)
  have "map_option (\<lambda>n. (an_plen (hdr n), an_addr (hdr n))) (deref t' (path 8 addr)) = Some (32, addr)"
    if "res = Node (path 8 addr)"
  proof (cases "deref ?t (path 8 addr)")
    case None
    with post that show ?thesis
      by (auto simp: insert_post_def leaf0_def)
  next
    case (Some m)
    have "length (path 8 addr) = 8" by (simp add: path_numeral)
    from deref_leaf [OF t(1) this Some] have "an_plen (hdr m) = 32" by simp
    with post Some show ?thesis
      by (auto simp: insert_post_def)
  qed
  with res ins show ?thesis by auto
qed

theorem insert_assertion_holds_witness:
  "case arp_insert (arp_inserts [(0x0A000001, 5, replicate 8 True)] arpn_zero) 0x0A000009 7
          (replicate 8 True) of
     (res, t', h') \<Rightarrow>
       res \<noteq> Assert_failed \<and> res \<noteq> Fault \<and>
       (case res of
          Node p \<Rightarrow> map_option (\<lambda>n. (an_plen (hdr n), an_addr (hdr n))) (deref t' p) =
                      Some (32, 0x0A000009)
        | _ \<Rightarrow> True)"
  by (rule insert_assertion_holds)

text \<open>
  C6.  Take any state the calls can reach from the empty tracker and an \<^verbatim>\<open>arp_reserve\<close>
  of \<open>ip\<close> that returns 0.  Whatever calls follow (who-has requests in any number and at
  any times, but also is-at packets, registrations and reservations), the record of \<open>ip\<close>
  stays reserved, its \<^verbatim>\<open>claimed\<close> flag keeps the value it had when \<^verbatim>\<open>arp_reserve\<close>
  returned, and none of the replies sent afterwards answers for \<open>ip\<close>.
\<close>

theorem reserved_never_claimed:
  assumes "arp_reserve ip ((calls cs arp_init)\<lparr>heap := h\<rparr>) = (Return 0, st1)"
  shows "\<exists>x y rs. arp_node ip st1 = Some x \<and> arp_node ip (calls cs' st1) = Some y \<and>
           an_reserved y \<and> an_claimed y = an_claimed x \<and>
           sent (calls cs' st1) = sent st1 @ rs \<and> (\<forall>p\<in>set rs. spa p \<noteq> ip)"
proof -
  have inv: "arp_inv ((calls cs arp_init)\<lparr>heap := h\<rparr>)" by (simp add: arp_inv_reachable)
  from arp_reserve_effect(1,4) [OF inv assms]
  obtain x where inv1: "arp_inv st1" and x: "arp_node ip st1 = Some x" "an_reserved x"
    by auto
  from calls_reserved [OF inv1 x, of cs'] x(1) show ?thesis by blast
qed

theorem reserved_never_claimed_witness:
  "\<exists>x y rs.
     arp_node host_b (snd (arp_reserve host_b ((calls [] arp_init)\<lparr>heap := replicate 8 True\<rparr>))) =
       Some x \<and>
     arp_node host_b
       (calls [request_at 0, request_at 1000, request_at 3000, request_at 3500]
          (snd (arp_reserve host_b ((calls [] arp_init)\<lparr>heap := replicate 8 True\<rparr>)))) = Some y \<and>
     an_reserved y \<and> an_claimed y = an_claimed x \<and>
     sent (calls [request_at 0, request_at 1000, request_at 3000, request_at 3500]
            (snd (arp_reserve host_b ((calls [] arp_init)\<lparr>heap := replicate 8 True\<rparr>)))) =
       sent (snd (arp_reserve host_b ((calls [] arp_init)\<lparr>heap := replicate 8 True\<rparr>))) @ rs \<and>
     (\<forall>p\<in>set rs. spa p \<noteq> host_b)"
proof -
  have "arp_reserve host_b ((calls [] arp_init)\<lparr>heap := replicate 8 True\<rparr>) =
      (Return 0, snd (arp_reserve host_b ((calls [] arp_init)\<lparr>heap := replicate 8 True\<rparr>)))"
    by code_simp
  then show ?thesis by (rule reserved_never_claimed)
qed

text \<open>
  C10.  Let no call of the history pass \<open>ip\<close> to \<^verbatim>\<open>arp_register\<close>, and let a well-formed,
  in-scope who-has request for \<open>ip\<close> from another sender be processed with return value
  0.  Then the tracker holds a /32 node for \<open>ip\<close>, and \<^verbatim>\<open>arp_lookup\<close> of \<open>ip\<close> succeeds with
  the all-zero link-layer address.
\<close>

theorem who_has_creates_unknown_record:
  assumes hist: "\<forall>c\<in>set cs. \<not> registers ip (snd c)"
    and req: "who_has_for ip dst_set ap len"
    and run: "packet_analyze_arp dst_set ethernet_reply fl ap len ((calls cs arp_init)\<lparr>heap := h\<rparr>) =
                (Return 0, st')"
  shows "(\<exists>x. arp_node ip st' = Some x \<and> an_plen x = 32 \<and> an_addr x = be32toh_q ip) \<and>
         arp_lookup ip st' = Some ether_zero"
proof -
  let ?st0 = "(calls cs arp_init)\<lparr>heap := h\<rparr>"
  define x where "x = before (arp_root ?st0) ip (capture_ms fl)"
  have inv: "arp_inv ?st0" by (simp add: arp_inv_reachable)
  from calls_unregistered [OF arp_inv_init hist]
  have k: "node_kept False None (arp_node ip ?st0)" by (simp add: arp_node_init)
  have x_ether: "an_ether x = ether_zero"
    using k by (auto simp: x_def before_def arp_node_def node_kept_def record0_def
        split: option.splits)
  have x_shape: "an_plen x = 32" "an_addr x = be32toh_q ip"
    using node_shape [OF inv [unfolded arp_inv_def], of ip]
    by (auto simp: x_def before_def record0_def split: option.splits)
  note s = who_has_step [OF inv req run refl x_def]
  from s(2) obtain y where y: "arp_node ip st' = Some y" "an_ether y = an_ether x"
    "an_plen y = an_plen x" "an_addr y = an_addr x"
    by (auto split: if_splits)
  with x_ether x_shape show ?thesis
    by (simp add: arp_lookup_node [OF s(1)])
qed

theorem who_has_creates_unknown_record_witness:
  "(\<exists>x. arp_node host_b (calls [(replicate 8 True, Register host_a mac_a 5), request_at 7] arp_init) =
          Some x \<and> an_plen x = 32 \<and> an_addr x = be32toh_q host_b) \<and>
   arp_lookup host_b (calls [(replicate 8 True, Register host_a mac_a 5), request_at 7] arp_init) =
     Some ether_zero"
proof -
  have hist: "\<forall>c\<in>set [(replicate 8 True, Register host_a mac_a 5)]. \<not> registers host_b (snd c)"
    by code_simp
  have req: "who_has_for host_b None request_b 28"
    by code_simp
  have run: "packet_analyze_arp None transmit_ok (flow_at 7) request_b 28
      ((calls [(replicate 8 True, Register host_a mac_a 5)] arp_init)\<lparr>heap := replicate 16 True\<rparr>) =
      (Return 0, calls [(replicate 8 True, Register host_a mac_a 5), request_at 7] arp_init)"
    by code_simp
  show ?thesis
    by (rule who_has_creates_unknown_record [OF hist req run])
qed

section \<open>Claims about the address aggregator\<close>

text \<open>
  C5 (as amended).  Take a tree from \<^verbatim>\<open>ip4a_new\<close> and a non-empty sequence of
  \<^verbatim>\<open>ip4a_insert\<close> calls on it, each with \<^verbatim>\<open>first <= last\<close> and each returning 0.  Then every
  node of the tree that has the leaf flag has \<^verbatim>\<open>coverage\<close> equal to \<open>2 ^ (32 - plen)\<close>, the size of
  its subnet.
\<close>

theorem leaf_coverage_full:
  assumes "ip4a_new h0 = (Some root, h1)"
    and "rs \<noteq> []"
    and "\<forall>(first, last', h) \<in> set rs. first \<le> last'"
    and "ip4a_inserts rs root = Some t"
    and "f \<in> set (ip4a_nodes t)"
    and "n_leaf f"
  shows "unat (n_coverage f) = 2 ^ (32 - unat (n_plen f))"
proof -
  have root: "root = ip4a_empty" using assms(1) by (rule ip4a_new_Some)
  have "ip4a_wf 8 t \<and> ip4a_full 8 t"
    using ip4a_inserts_inv [OF ip4a_wf_empty assms(3) assms(4) [unfolded root]] assms(2) by simp
  then show ?thesis
    using ip4a_nodes_leaf_full [of 8 t f] assms(5,6) by simp
qed

theorem leaf_coverage_full_witness:
  "n_leaf (ip4a_nodes (the (ip4a_inserts twice ip4a_empty)) ! 7) \<and>
   unat (n_plen (ip4a_nodes (the (ip4a_inserts twice ip4a_empty)) ! 7)) = 28 \<and>
   unat (n_coverage (ip4a_nodes (the (ip4a_inserts twice ip4a_empty)) ! 7)) = 2 ^ (32 - 28)"
proof -
  let ?t = "the (ip4a_inserts twice ip4a_empty)"
  have new: "ip4a_new [True] = (Some ip4a_empty, [])" by code_simp
  have ne: "twice \<noteq> []" by code_simp
  have ord: "\<forall>(first, last', h) \<in> set twice. first \<le> last'" by code_simp
  have run: "ip4a_inserts twice ip4a_empty = Some ?t" by code_simp
  have mem: "ip4a_nodes ?t ! 7 \<in> set (ip4a_nodes ?t)" by code_simp
  have leaf: "n_leaf (ip4a_nodes ?t ! 7)" by code_simp
  have plen: "unat (n_plen (ip4a_nodes ?t ! 7)) = 28" by code_simp
  from leaf_coverage_full [OF new ne ord run mem leaf] leaf plen
  show ?thesis by simp
qed

text \<open>
  Without an insertion the claim fails: the node \<^verbatim>\<open>ip4a_new\<close> returns is a leaf with prefix
  length 0 and coverage 0, not \<open>2\<^sup>3\<^sup>2\<close>.
\<close>

theorem new_tree_leaf_not_full:
  "ip4a_new [True] = (Some ip4a_empty, []) \<and>
   ip4a_inserts [] ip4a_empty = Some ip4a_empty \<and>
   filter (\<lambda>f. n_leaf f \<and> unat (n_coverage f) \<noteq> 2 ^ (32 - unat (n_plen f))) (ip4a_nodes ip4a_empty) =
     [\<lparr>n_addr = 0, n_plen = 0, n_leaf = True, n_coverage = 0\<rparr>]"
proof -
  have "ip4a_new [True] = (Some ip4a_empty, [])" by code_simp
  moreover have "ip4a_nodes ip4a_empty = [\<lparr>n_addr = 0, n_plen = 0, n_leaf = True, n_coverage = 0\<rparr>]"
    by code_simp
  ultimately show ?thesis by simp
qed

text \<open>
  It also fails after a call with \<^verbatim>\<open>first > last\<close>: \<^verbatim>\<open>ip4a_insert(root, 5, 3)\<close> returns 0 and
  leaves the chain of nodes down to 0.0.0.0/28, whose loop from slot 5 to slot 3 does not
  run; that node keeps the leaf flag and coverage 0, and it is the only leaf of the tree.
\<close>

lemma reversed_range_leaf_not_full:
  "map_option (\<lambda>(ret, t, h). (ret, filter n_leaf (ip4a_nodes t)))
     (ip4a_insert ip4a_empty 5 3 (replicate 7 True)) =
   Some (0, [\<lparr>n_addr = 0, n_plen = 28, n_leaf = True, n_coverage = 0\<rparr>])"
  by code_simp

text \<open>
  C1.  After successful insertions into a new tree, \<^verbatim>\<open>ip4a_lookup(root, a)\<close> should return
  1 exactly for the addresses \<open>a\<close> of the inserted ranges.  The code does not do that:
  \<^verbatim>\<open>ip4a_insert\<close> adds the whole coverage of a child to the parent every time it descends
  into the child (\<^verbatim>\<open>n->coverage += sn->coverage\<close>), also when the child was counted before.
  Inserting 0.0.0.0 to 0.0.0.7 once leaves 0.0.0.8 unknown; inserting the same range
  again brings the coverage of 0.0.0.0/28 to 16, the node is aggregated into a leaf, and
  the lookup of 0.0.0.8 returns 1.
\<close>

theorem lookup_false_positive:
  "map_option (\<lambda>t. ip4a_lookup t 8) (ip4a_inserts [(0, 7, replicate 15 True)] ip4a_empty) = Some (Some 0) \<and>
   map_option (\<lambda>t. ip4a_lookup t 8) (ip4a_inserts twice ip4a_empty) = Some (Some 1)"
  by code_simp

text \<open>
  One half of the property does hold in the code.  In a tree built by \<^verbatim>\<open>ip4a_new\<close> and
  \<^verbatim>\<open>ip4a_insert\<close> calls that all return 0 and all have \<^verbatim>\<open>first <= last\<close>, \<^verbatim>\<open>ip4a_lookup\<close>
  returns 1 for every address of every inserted range: the surplus in the counters can make
  the tree answer for more addresses, never for fewer.
\<close>

theorem inserted_address_is_found:
  assumes "ip4a_new h0 = (Some root, h1)"
    and "\<forall>(first, last', h) \<in> set rs. first \<le> last'"
    and "ip4a_inserts rs root = Some t"
    and "(first, last', h) \<in> set rs"
    and "first \<le> x" "x \<le> last'"
  shows "ip4a_lookup t x = Some 1"
proof -
  have root: "root = ip4a_empty" using assms(1) by (rule ip4a_new_Some)
  note run = assms(3) [unfolded root]
  have t: "ip4a_wf 8 t" "n_addr (nf t) = 0"
    using ip4a_inserts_inv [OF ip4a_wf_empty assms(2) run] by simp_all
  have "ip4a_marked 8 t x"
    using ip4a_inserts_marks [OF ip4a_wf_empty ip4a_empty_start assms(2) run, of x] assms(4-6)
    by blast
  then show ?thesis
    using ip4a_lookup_marked [OF _ t(1) ip4a_inside_root [OF t(2)]] by simp
qed

theorem inserted_address_is_found_witness:
  "ip4a_lookup (the (ip4a_inserts twice ip4a_empty)) 5 = Some 1"
proof -
  have new: "ip4a_new [True] = (Some ip4a_empty, [])" by code_simp
  have ord: "\<forall>(first, last', h) \<in> set twice. first \<le> last'" by code_simp
  have run: "ip4a_inserts twice ip4a_empty = Some (the (ip4a_inserts twice ip4a_empty))" by code_simp
  have mem: "(0, 7, []) \<in> set twice" by code_simp
  show ?thesis
    by (rule inserted_address_is_found [OF new ord run mem]) simp_all
qed

text \<open>
  C2.  Inserting a range a second time should change neither \<^verbatim>\<open>ip4a_count\<close> nor the output
  of \<^verbatim>\<open>ip4a_fprint\<close>.  For the same reason as above it changes both: after one insertion
  of 0.0.0.0 to 0.0.0.7 the count is 8 and the dump has the eight addresses, after the
  second the count is 72 and the dump is the single line 0.0.0.0/28.
\<close>

theorem second_insert_changes_count_and_dump:
  "map_option (\<lambda>t. (ip4a_count t, ip4a_fprint t)) (ip4a_inserts [(0, 7, replicate 15 True)] ip4a_empty) =
     Some (8, ''0.0.0.0'' @ [CHR 0x0A] @ ''0.0.0.1'' @ [CHR 0x0A] @ ''0.0.0.2'' @ [CHR 0x0A] @
              ''0.0.0.3'' @ [CHR 0x0A] @ ''0.0.0.4'' @ [CHR 0x0A] @ ''0.0.0.5'' @ [CHR 0x0A] @
              ''0.0.0.6'' @ [CHR 0x0A] @ ''0.0.0.7'' @ [CHR 0x0A]) \<and>
   map_option (\<lambda>t. (ip4a_count t, ip4a_fprint t)) (ip4a_inserts twice ip4a_empty) =
     Some (72, ''0.0.0.0/28'' @ [CHR 0x0A])"
  by code_simp
end
